theory Spec2Isabelle
  imports Complex_Main
begin

section \<open>Errors\<close>

text \<open>
  Every way a call of \<^verbatim>\<open>coalesced_collectives.py\<close> can end without a value is a
  value of \<open>error\<close>: the Python exceptions the code can raise, a failure of the
  transport, and \<open>Hang\<close> for a loop that would spin forever.
\<close>

datatype error =
    ZeroDivisionError
  | IndexError
  | RuntimeError
  | AssertionError
  | TransportError
  | Hang

section \<open>The adaptive group-size solver (lines 62--81)\<close>

text \<open>
  \<^verbatim>\<open>max_elems_per_intra_group = 40960\<close> (line 43). The source compares the float
  quotient \<^verbatim>\<open>aligned_size / intra_quant_group\<close> with this constant; for a positive
  divisor the comparison \<open>a / g \<le> 40960\<close> is \<open>a \<le> 40960 * g\<close> on the integers
  (Python's true division is correctly rounded and 40960 is representable, so the two
  agree on every element count below \<open>2 ^ 53\<close>).
\<close>

definition max_elems_per_intra_group :: nat where
  "max_elems_per_intra_group = 40960"

text \<open>
  Lines 63--67, the loop variable \<open>g\<close> being \<^verbatim>\<open>intra_quant_group\<close>:
  \<^verbatim>\<open>
  while intra_quant_group < aligned_size:
      if aligned_size % intra_quant_group == 0 \
          and aligned_size / intra_quant_group <= max_elems_per_intra_group:
          break
      intra_quant_group += global_world_size
  \<close>
  \<^verbatim>\<open>%\<close> by zero raises; a positive \<open>g\<close> that is never increased
  (\<open>global_world_size = 0\<close>) would loop forever.
\<close>

function increment_search :: "nat \<Rightarrow> nat \<Rightarrow> nat \<Rightarrow> error + nat" where
  "increment_search aligned_size global_world_size g =
     (if g < aligned_size then
        (if g = 0 then Inl ZeroDivisionError
         else if aligned_size mod g = 0 \<and> aligned_size \<le> max_elems_per_intra_group * g
           then Inr g
         else if global_world_size = 0 then Inl Hang
         else increment_search aligned_size global_world_size (g + global_world_size))
      else Inr g)"
  by pat_completeness auto
termination
  by (relation "measure (\<lambda>(aligned_size, global_world_size, g). aligned_size - g)") auto

declare increment_search.simps [simp del]

text \<open>
  The guard of the doubling loop (lines 69--70):
  \<^verbatim>\<open>aligned_size % (intra_quant_group * 2) == 0 and
    aligned_size / intra_quant_group > max_elems_per_intra_group\<close>.
\<close>

definition doubling_guard :: "nat \<Rightarrow> nat \<Rightarrow> bool" where
  "doubling_guard aligned_size g =
     (aligned_size mod (g * 2) = 0 \<and> aligned_size > max_elems_per_intra_group * g)"

text \<open>
  Lines 68--73:
  \<^verbatim>\<open>
  while True:
      if <guard>:
          intra_quant_group *= 2
      else:
          break
  \<close>
\<close>

function doubling_loop :: "nat \<Rightarrow> nat \<Rightarrow> error + nat" where
  "doubling_loop aligned_size g =
     (if g = 0 then Inl ZeroDivisionError
      else if doubling_guard aligned_size g then doubling_loop aligned_size (g * 2)
      else Inr g)"
  by pat_completeness auto
termination
proof (relation "measure (\<lambda>(aligned_size, g). aligned_size - g)")
  show "wf (measure (\<lambda>(aligned_size, g). aligned_size - g))"
    by simp
next
  fix aligned_size g :: nat
  assume pos: "g \<noteq> 0" and guard: "doubling_guard aligned_size g"
  from guard have "max_elems_per_intra_group * g < aligned_size"
    by (simp add: doubling_guard_def)
  then have "g * 2 \<le> aligned_size"
    by (simp add: max_elems_per_intra_group_def)
  with pos show "((aligned_size, g * 2), (aligned_size, g))
      \<in> measure (\<lambda>(aligned_size, g). aligned_size - g)"
    by simp
qed

declare doubling_loop.simps [simp del]

text \<open>
  Lines 62--73: the search starts at \<^verbatim>\<open>intra_quant_group = global_world_size\<close> and
  hands its candidate to the doubling loop.
\<close>

definition adaptive_group_size :: "nat \<Rightarrow> nat \<Rightarrow> error + nat" where
  "adaptive_group_size aligned_size global_world_size =
     (case increment_search aligned_size global_world_size global_world_size of
        Inl e \<Rightarrow> Inl e
      | Inr g \<Rightarrow> doubling_loop aligned_size g)"

text \<open>
  Lines 74--80, the three assertions, in the source's order:
  \<^verbatim>\<open>
  assert (intra_quant_group % global_world_size == 0), ...
  assert (aligned_size / intra_quant_group <= max_elems_per_intra_group), ...
  assert tensor.numel() > intra_quant_group, ...
  \<close>
\<close>

definition check_group_size :: "nat \<Rightarrow> nat \<Rightarrow> nat \<Rightarrow> nat \<Rightarrow> error + nat" where
  "check_group_size aligned_size global_world_size tensor_numel g =
     (if global_world_size = 0 \<or> g = 0 then Inl ZeroDivisionError
      else if g mod global_world_size \<noteq> 0 then Inl AssertionError
      else if \<not> aligned_size \<le> max_elems_per_intra_group * g then Inl AssertionError
      else if \<not> tensor_numel > g then Inl AssertionError
      else Inr g)"

text \<open>Lines 62--80: solve, then assert.\<close>

definition solve_group_size :: "nat \<Rightarrow> nat \<Rightarrow> nat \<Rightarrow> error + nat" where
  "solve_group_size aligned_size global_world_size tensor_numel =
     (case adaptive_group_size aligned_size global_world_size of
        Inl e \<Rightarrow> Inl e
      | Inr g \<Rightarrow> check_group_size aligned_size global_world_size tensor_numel g)"

text \<open>
  Lines 59--81. \<^verbatim>\<open>intra_group_cache\<close> is a dictionary from aligned size to group
  size; a hit returns the stored size and skips the solver and its assertions, a miss
  solves, asserts and stores.
\<close>

type_synonym group_cache = "nat \<rightharpoonup> nat"

definition intra_group_size ::
  "group_cache \<Rightarrow> nat \<Rightarrow> nat \<Rightarrow> nat \<Rightarrow> error + (nat \<times> group_cache)" where
  "intra_group_size intra_group_cache aligned_size global_world_size tensor_numel =
     (case intra_group_cache aligned_size of
        Some g \<Rightarrow> Inr (g, intra_group_cache)
      | None \<Rightarrow>
          (case solve_group_size aligned_size global_world_size tensor_numel of
             Inl e \<Rightarrow> Inl e
           | Inr g \<Rightarrow> Inr (g, intra_group_cache(aligned_size \<mapsto> g))))"

section \<open>Memory and tensors\<close>

text \<open>
  The code works on \<^verbatim>\<open>torch.Tensor\<close> objects: views of storage that several tensors
  can share, which \<^verbatim>\<open>div_\<close>, \<^verbatim>\<open>copy_\<close> and the collective mutate in place. The memory of
  one rank is a list of buffers (a buffer's address is its index; an allocation appends
  a buffer), together with \<open>uninit\<close>, the values that freshly allocated, uninitialised
  memory happens to hold: \<open>uninit h b i\<close> is what cell \<open>i\<close> of the buffer allocated at
  address \<open>b\<close> contains before anything is written to it.

  The value of an element is a real number (every floating-point number and every
  integer is one). What arithmetic does to the values depends on the \<^verbatim>\<open>dtype\<close> of the
  tensor: a floating-point dtype rounds the exact result of every operation to a value
  of its format, and \<open>Floating fl\<close> is such a dtype with \<open>fl\<close> its rounding function
  (the formats themselves, float16, bfloat16, float32 and so on, are not fixed here);
  \<open>Integral\<close> stands for the integer dtypes, on which the in-place true division
  \<^verbatim>\<open>div_\<close> raises.

  A tensor is a contiguous view: a buffer, an offset, an element count, the number of
  dimensions and the dtype (the attributes of a tensor that the code reads are
  \<^verbatim>\<open>numel()\<close>, \<^verbatim>\<open>dim()\<close>, \<^verbatim>\<open>dtype\<close> and the flattened data).
\<close>

record heap =
  bufs :: "real list list"
  uninit :: "nat \<Rightarrow> nat \<Rightarrow> real"

datatype dtype = is_floating: Floating (rounding: "real \<Rightarrow> real") | Integral

record tensor =
  buf :: nat
  off :: nat
  numel :: nat
  dim :: nat
  dtype :: dtype

definition read :: "heap \<Rightarrow> tensor \<Rightarrow> real list" where
  "read h t = take (numel t) (drop (off t) (bufs h ! buf t))"

definition overwrite :: "heap \<Rightarrow> tensor \<Rightarrow> real list \<Rightarrow> heap" where
  "overwrite h t vs =
     h\<lparr>bufs := (bufs h)[buf t :=
        take (off t) (bufs h ! buf t) @ vs @ drop (off t + numel t) (bufs h ! buf t)]\<rparr>"

text \<open>A tensor is valid in a memory when its view lies inside an allocated buffer.\<close>

definition valid :: "heap \<Rightarrow> tensor \<Rightarrow> bool" where
  "valid h t = (buf t < length (bufs h) \<and> off t + numel t \<le> length (bufs h ! buf t))"

subsection \<open>The torch operations the code calls\<close>

text \<open>\<^verbatim>\<open>tensor.view(-1)\<close>: the same storage, one dimension.\<close>

definition view_flat :: "tensor \<Rightarrow> tensor" where
  "view_flat t = t\<lparr>dim := 1\<rparr>"

text \<open>
  \<^verbatim>\<open>t[a:b]\<close> on a one-dimensional tensor: a view; both bounds are clamped to the
  length, and an empty range gives an empty view.
\<close>

definition slice :: "tensor \<Rightarrow> nat \<Rightarrow> nat \<Rightarrow> tensor" where
  "slice t a b =
     t\<lparr>off := off t + min a (numel t), numel := min b (numel t) - min a (numel t)\<rparr>"

text \<open>\<^verbatim>\<open>t.narrow(0, start, length)\<close>: a view; raises when the range leaves the tensor.\<close>

definition narrow :: "tensor \<Rightarrow> nat \<Rightarrow> nat \<Rightarrow> error + tensor" where
  "narrow t start len =
     (if start + len \<le> numel t then Inr (t\<lparr>off := off t + start, numel := len\<rparr>)
      else Inl RuntimeError)"

text \<open>
  A new buffer with the given contents, and the one-dimensional tensor of the given
  dtype on it.
\<close>

definition alloc :: "dtype \<Rightarrow> real list \<Rightarrow> heap \<Rightarrow> tensor \<times> heap" where
  "alloc d vs h =
     (\<lparr>buf = length (bufs h), off = 0, numel = length vs, dim = 1, dtype = d\<rparr>,
      h\<lparr>bufs := bufs h @ [vs]\<rparr>)"

text \<open>\<^verbatim>\<open>torch.empty(n, dtype=d)\<close>: a new buffer of \<open>n\<close> uninitialised elements.\<close>

definition torch_empty :: "nat \<Rightarrow> dtype \<Rightarrow> heap \<Rightarrow> tensor \<times> heap" where
  "torch_empty n d h = alloc d (map (uninit h (length (bufs h))) [0..<n]) h"

text \<open>
  \<^verbatim>\<open>torch.cat(ts)\<close> on one-dimensional tensors: a new buffer holding the contents one
  after the other; raises on an empty list. The dtype of the result is the promoted
  dtype: floating-point as soon as one of the tensors is (the first such dtype stands
  for it; the claims are about lists of one dtype).
\<close>

definition cat_dtype :: "tensor list \<Rightarrow> dtype" where
  "cat_dtype ts = (case filter is_floating (map dtype ts) of [] \<Rightarrow> Integral | d # ds \<Rightarrow> d)"

definition torch_cat :: "tensor list \<Rightarrow> heap \<Rightarrow> error + (tensor \<times> heap)" where
  "torch_cat ts h =
     (if ts = [] then Inl RuntimeError
      else Inr (alloc (cat_dtype ts) (concat (map (read h) ts)) h))"

text \<open>
  \<^verbatim>\<open>t.div_(w)\<close>: divides every element of the view in place, rounding each quotient to
  the tensor's floating-point format. On a tensor of an integer dtype it raises (the
  quotient is a floating-point value, which cannot be written back).
\<close>

definition div_inplace :: "tensor \<Rightarrow> real \<Rightarrow> heap \<Rightarrow> error + heap" where
  "div_inplace t w h =
     (case dtype t of
        Integral \<Rightarrow> Inl RuntimeError
      | Floating fl \<Rightarrow> Inr (overwrite h t (map (\<lambda>x. fl (x / w)) (read h t))))"

text \<open>\<^verbatim>\<open>dst.copy_(src)\<close>: overwrites the view \<open>dst\<close> with the contents of \<open>src\<close>.\<close>

definition copy_inplace :: "tensor \<Rightarrow> tensor \<Rightarrow> heap \<Rightarrow> heap" where
  "copy_inplace dst src h = overwrite h dst (read h src)"

text \<open>
  \<^verbatim>\<open>torch.chunk(t, chunks)\<close> on a one-dimensional tensor: views of
  \<open>split_size = ceil(numel / chunks)\<close> elements each, the last one possibly shorter,
  as many as are needed to cover the tensor; an empty tensor gives \<open>chunks\<close> empty
  views; \<open>chunks = 0\<close> raises.
\<close>

definition torch_chunk :: "tensor \<Rightarrow> nat \<Rightarrow> error + tensor list" where
  "torch_chunk t chunks =
     (if chunks = 0 then Inl RuntimeError
      else let split_size = (numel t + chunks - 1) div chunks in
        if split_size = 0 then Inr (replicate chunks (slice t 0 0))
        else Inr (map (\<lambda>i. slice t (i * split_size) (i * split_size + split_size))
                    [0..<(numel t + split_size - 1) div split_size]))"

section \<open>The collective transport\<close>

text \<open>
  Modelled from the spec: \<^verbatim>\<open>dist.reduce_scatter_fn\<close> (\<^verbatim>\<open>deepspeed.comm\<close>, behind
  \<^verbatim>\<open>_torch_reduce_scatter_fn\<close>, line 22) is not among the sources. The spec, section 6:
  "\<^verbatim>\<open>reduce_scatter(input, output, scope)\<close> --- sum-reduces \<open>input\<close> and scatters equal
  contiguous shards, one per participant, into \<open>output\<close>". \<open>inputs\<close> are the input
  buffers of all participants in rank order, \<open>shard\<close> is the length of the output; the
  transport fails when an input is not \<open>shard\<close> times the number of participants long.
  The sum is taken in the dtype \<open>d\<close> of the buffers: the contributions are added one
  after the other, in rank order, and a floating-point dtype rounds every partial sum
  (the spec does not say in which order the transport adds).
\<close>

definition dtype_add :: "dtype \<Rightarrow> real \<Rightarrow> real \<Rightarrow> real" where
  "dtype_add d a b = (case d of Floating fl \<Rightarrow> fl (a + b) | Integral \<Rightarrow> a + b)"

definition dtype_sum :: "dtype \<Rightarrow> real list \<Rightarrow> real" where
  "dtype_sum d xs = (case xs of [] \<Rightarrow> 0 | x # rest \<Rightarrow> foldl (dtype_add d) x rest)"

definition sum_reduce :: "dtype \<Rightarrow> real list list \<Rightarrow> nat \<Rightarrow> real list" where
  "sum_reduce d inputs n = map (\<lambda>j. dtype_sum d (map (\<lambda>x. x ! j) inputs)) [0..<n]"

definition reduce_scatter_fn ::
  "dtype \<Rightarrow> real list list \<Rightarrow> nat \<Rightarrow> nat \<Rightarrow> error + real list" where
  "reduce_scatter_fn d inputs rank shard =
     (if list_all (\<lambda>x. length x = shard * length inputs) inputs
      then Inr (take shard (drop (rank * shard) (sum_reduce d inputs (shard * length inputs))))
      else Inl TransportError)"

section \<open>Coalesced reduce-scatter (lines 116--176)\<close>

text \<open>
  \<^verbatim>\<open>math.ceil(tensor.numel() / world_sz)\<close> for a positive \<open>world_sz\<close> (exact for every
  element count below \<open>2 ^ 53\<close>, where the float quotient is exact enough).
\<close>

definition ceil_div :: "nat \<Rightarrow> nat \<Rightarrow> nat" where
  "ceil_div n world_sz = (n + world_sz - 1) div world_sz"

text \<open>
  Lines 129--133, for one tensor: the list of its \<open>world_sz\<close> partitions,
  \<^verbatim>\<open>flattened_tensor[rank * chunk_sz:rank * chunk_sz + chunk_sz]\<close>.
\<close>

definition partition_lst :: "nat \<Rightarrow> tensor \<Rightarrow> tensor list" where
  "partition_lst world_sz t =
     (let flattened_tensor = view_flat t; chunk_sz = ceil_div (numel t) world_sz
      in map (\<lambda>rank. slice flattened_tensor (rank * chunk_sz) (rank * chunk_sz + chunk_sz))
           [0..<world_sz])"

text \<open>
  Lines 147--155, the body of the inner loop: append the partition of tensor
  \<open>tensor_idx\<close> for \<open>rank\<close>, then, when it is shorter than the padded partition size,
  a \<^verbatim>\<open>torch.empty\<close> tensor of the missing length and of the partition's dtype.
\<close>

definition append_partition ::
  "tensor list list \<Rightarrow> nat list \<Rightarrow> nat \<Rightarrow> tensor list \<times> heap \<Rightarrow> nat \<Rightarrow> tensor list \<times> heap"
  where
  "append_partition partition_lst_for_each_tensor padded_partition_sz_for_each_tensor rank st
       tensor_idx =
     (let tensor_chunk = partition_lst_for_each_tensor ! tensor_idx ! rank;
          lst = fst st @ [tensor_chunk];
          padding_sz = padded_partition_sz_for_each_tensor ! tensor_idx - numel tensor_chunk
      in if padding_sz > 0
         then (lst @ [fst (torch_empty padding_sz (dtype tensor_chunk) (snd st))],
               snd (torch_empty padding_sz (dtype tensor_chunk) (snd st)))
         else (lst, snd st))"

text \<open>Lines 144--155: for every rank, for every tensor.\<close>

definition interleave ::
  "tensor list list \<Rightarrow> nat list \<Rightarrow> nat \<Rightarrow> nat \<Rightarrow> heap \<Rightarrow> tensor list \<times> heap" where
  "interleave partition_lst_for_each_tensor padded_partition_sz_for_each_tensor world_sz n h =
     foldl (\<lambda>st rank.
         foldl (append_partition partition_lst_for_each_tensor
                  padded_partition_sz_for_each_tensor rank) st [0..<n])
       ([], h) [0..<world_sz]"

text \<open>
  Lines 127--159: the flat buffer this rank hands to the collective, already divided by
  \<open>world_sz\<close>. With one tensor whose element count is a multiple of \<open>world_sz\<close> it is
  the tensor itself, flattened (no allocation); otherwise it is the concatenation built
  by \<open>interleave\<close>. \<^verbatim>\<open>math.ceil(numel / world_sz)\<close> raises for \<open>world_sz = 0\<close>, and
  \<^verbatim>\<open>div_\<close> (line 159) raises on a buffer of an integer dtype.
\<close>

definition flat_buffer :: "nat \<Rightarrow> tensor list \<Rightarrow> heap \<Rightarrow> error + (tensor \<times> heap)" where
  "flat_buffer world_sz tensors h =
     (if world_sz = 0 \<and> tensors \<noteq> [] then Inl ZeroDivisionError
      else
        let partition_lst_for_each_tensor = map (partition_lst world_sz) tensors;
            padded_partition_sz_for_each_tensor =
              map (\<lambda>t. ceil_div (numel t) world_sz) tensors
        in case (if length tensors = 1 \<and> numel (tensors ! 0) mod world_sz = 0
                 then Inr (view_flat (tensors ! 0), h)
                 else torch_cat
                   (fst (interleave partition_lst_for_each_tensor
                           padded_partition_sz_for_each_tensor world_sz (length tensors) h))
                   (snd (interleave partition_lst_for_each_tensor
                           padded_partition_sz_for_each_tensor world_sz (length tensors) h)))
           of Inl e \<Rightarrow> Inl e
            | Inr (tensor_partition_flat_buffer, h') \<Rightarrow>
               (case div_inplace tensor_partition_flat_buffer (real world_sz) h' of
                  Inl e \<Rightarrow> Inl e
                | Inr h'' \<Rightarrow> Inr (tensor_partition_flat_buffer, h'')))"

text \<open>
  What a rank contributes to the collective: the contents of its flat buffer. Every rank
  runs the same code on its own memory and tensors.
\<close>

definition contribution :: "nat \<Rightarrow> heap \<times> tensor list \<Rightarrow> error + real list" where
  "contribution world_sz st =
     (case flat_buffer world_sz (snd st) (fst st) of
        Inl e \<Rightarrow> Inl e
      | Inr (flat, h') \<Rightarrow> Inr (read h' flat))"

fun gather :: "(error + 'a) list \<Rightarrow> error + 'a list" where
  "gather [] = Inr []"
| "gather (Inl e # rs) = Inl e"
| "gather (Inr x # rs) = (case gather rs of Inl e \<Rightarrow> Inl e | Inr xs \<Rightarrow> Inr (x # xs))"

text \<open>
  Lines 169--175: the output for each tensor is a view of this rank's reduced slice,
  \<^verbatim>\<open>narrow(0, offset, partition_lst_for_each_tensor[tensor_idx][this_rank].numel())\<close>,
  with \<open>offset\<close> advancing by the padded partition sizes.
\<close>

fun collect_outputs ::
  "tensor \<Rightarrow> tensor list list \<Rightarrow> nat list \<Rightarrow> nat \<Rightarrow> nat \<Rightarrow> nat list \<Rightarrow> error + tensor list"
  where
  "collect_outputs reduced partition_lst_for_each_tensor padded this_rank offset [] = Inr []"
| "collect_outputs reduced partition_lst_for_each_tensor padded this_rank offset
       (tensor_idx # rest) =
     (case narrow reduced offset (numel (partition_lst_for_each_tensor ! tensor_idx ! this_rank))
      of Inl e \<Rightarrow> Inl e
       | Inr out \<Rightarrow>
          (case collect_outputs reduced partition_lst_for_each_tensor padded this_rank
                  (offset + padded ! tensor_idx) rest
           of Inl e \<Rightarrow> Inl e
            | Inr outs \<Rightarrow> Inr (out # outs)))"

text \<open>
  \<^verbatim>\<open>reduce_scatter_coalesced\<close>, as run by rank \<open>this_rank\<close> of \<open>world_sz\<close> participants.
  \<open>world r\<close> is the memory of rank \<open>r\<close> and the tensors it passes, at the moment of the
  call. The result is the list of output tensors and this rank's memory after the call.
  The output of the collective is \<^verbatim>\<open>tensor_partition_buffer_for_each_rank[this_rank]\<close>,
  a view into the flat buffer, which the collective overwrites.
\<close>

definition reduce_scatter_coalesced ::
  "nat \<Rightarrow> nat \<Rightarrow> (nat \<Rightarrow> heap \<times> tensor list) \<Rightarrow> error + (tensor list \<times> heap)" where
  "reduce_scatter_coalesced this_rank world_sz world =
     (let tensors = snd (world this_rank) in
      case flat_buffer world_sz tensors (fst (world this_rank)) of
        Inl e \<Rightarrow> Inl e
      | Inr (tensor_partition_flat_buffer, h1) \<Rightarrow>
         (case torch_chunk tensor_partition_flat_buffer world_sz of
            Inl e \<Rightarrow> Inl e
          | Inr tensor_partition_buffer_for_each_rank \<Rightarrow>
             if \<not> this_rank < length tensor_partition_buffer_for_each_rank then Inl IndexError
             else
               (case gather (map (\<lambda>r. contribution world_sz (world r)) [0..<world_sz]) of
                  Inl e \<Rightarrow> Inl e
                | Inr inputs \<Rightarrow>
                   (case reduce_scatter_fn (dtype tensor_partition_flat_buffer) inputs this_rank
                           (numel (tensor_partition_buffer_for_each_rank ! this_rank)) of
                      Inl e \<Rightarrow> Inl e
                    | Inr reduced \<Rightarrow>
                       (case collect_outputs (tensor_partition_buffer_for_each_rank ! this_rank)
                               (map (partition_lst world_sz) tensors)
                               (map (\<lambda>t. ceil_div (numel t) world_sz) tensors)
                               this_rank 0 [0..<length tensors] of
                          Inl e \<Rightarrow> Inl e
                        | Inr output_lst \<Rightarrow>
                            Inr (output_lst,
                                 overwrite h1 (tensor_partition_buffer_for_each_rank ! this_rank)
                                   reduced))))))"

section \<open>Hierarchical quantized reduce (lines 31--111)\<close>

text \<open>
  Lines 54--55: \<^verbatim>\<open>padding_size\<close>, for a positive world size.
\<close>

definition padding_size :: "nat \<Rightarrow> nat \<Rightarrow> nat" where
  "padding_size n global_world_size =
     (if n mod global_world_size \<noteq> 0 then global_world_size - n mod global_world_size else 0)"

text \<open>
  Lines 54--58: the aligned copy of a tensor. \<^verbatim>\<open>flat_tensor\<close> is a \<^verbatim>\<open>torch.empty\<close>
  buffer of \<open>aligned_size\<close> elements and of the tensor's dtype; the tensor's data is
  copied to its front.
\<close>

definition align_tensor :: "nat \<Rightarrow> tensor \<Rightarrow> heap \<Rightarrow> error + (tensor \<times> heap)" where
  "align_tensor global_world_size t h =
     (if global_world_size = 0 then Inl ZeroDivisionError
      else
        let aligned_size = numel t + padding_size (numel t) global_world_size;
            flat_tensor = fst (torch_empty aligned_size (dtype t) h);
            h1 = snd (torch_empty aligned_size (dtype t) h)
        in case narrow flat_tensor 0 (numel t) of
             Inl e \<Rightarrow> Inl e
           | Inr front \<Rightarrow> Inr (flat_tensor, copy_inplace front (view_flat t) h1))"

text \<open>
  \<^verbatim>\<open>torch.chunk\<close> on the values of a one-dimensional tensor, and the sum of tensors
  (\<^verbatim>\<open>sum(list(...))\<close> adds the chunks from the left; \<open>+\<close> on one-dimensional tensors of
  different lengths broadcasts a one-element tensor and raises otherwise). \<open>fl\<close> is
  the rounding of the floating-point format of \<^verbatim>\<open>final_output\<close>.
\<close>

definition chunk_values :: "real list \<Rightarrow> nat \<Rightarrow> error + real list list" where
  "chunk_values xs chunks =
     (if chunks = 0 then Inl RuntimeError
      else let split_size = (length xs + chunks - 1) div chunks in
        if split_size = 0 then Inr (replicate chunks [])
        else Inr (map (\<lambda>i. take split_size (drop (i * split_size) xs))
                    [0..<(length xs + split_size - 1) div split_size]))"

definition tensor_add :: "(real \<Rightarrow> real) \<Rightarrow> real list \<Rightarrow> real list \<Rightarrow> error + real list" where
  "tensor_add fl a b =
     (if length a = length b then Inr (map2 (\<lambda>x y. fl (x + y)) a b)
      else if length a = 1 then Inr (map (\<lambda>y. fl (hd a + y)) b)
      else if length b = 1 then Inr (map (\<lambda>x. fl (x + hd b)) a)
      else Inl RuntimeError)"

fun tensor_sum :: "(real \<Rightarrow> real) \<Rightarrow> real list \<Rightarrow> real list list \<Rightarrow> error + real list" where
  "tensor_sum fl acc [] = Inr acc"
| "tensor_sum fl acc (c # cs) =
     (case tensor_add fl acc c of Inl e \<Rightarrow> Inl e | Inr acc' \<Rightarrow> tensor_sum fl acc' cs)"

text \<open>
  \<^verbatim>\<open>(sum(list(final_output.chunk(num_nodes))) / num_nodes).view(-1)\<close> (lines 103 and 108),
  on the flattened values of \<^verbatim>\<open>final_output\<close>.
\<close>

definition mean_of_chunks :: "(real \<Rightarrow> real) \<Rightarrow> real list \<Rightarrow> nat \<Rightarrow> error + real list" where
  "mean_of_chunks fl final_output num_nodes =
     (case chunk_values final_output num_nodes of
        Inl e \<Rightarrow> Inl e
      | Inr [] \<Rightarrow> Inl RuntimeError
      | Inr (c # cs) \<Rightarrow>
          (case tensor_sum fl c cs of
             Inl e \<Rightarrow> Inl e
           | Inr summed \<Rightarrow> Inr (map (\<lambda>x. fl (x / real num_nodes)) summed)))"

text \<open>
  Lines 99--110: this rank's window of the averaged result. The third case, a window
  that starts at or beyond the end of the tensor, assigns nothing: the output slot keeps
  the \<^verbatim>\<open>None\<close> it was created with (line 41).
\<close>

definition finalize ::
  "nat \<Rightarrow> nat \<Rightarrow> nat \<Rightarrow> nat \<Rightarrow> nat \<Rightarrow> (real \<Rightarrow> real) \<Rightarrow> real list \<Rightarrow> heap
    \<Rightarrow> error + (tensor option \<times> heap)"
  where
  "finalize global_world_size num_nodes this_rank tensor_numel aligned_size fl final_output h =
     (let partition_size = aligned_size div global_world_size;
          start = partition_size * this_rank;
          stop = start + partition_size
      in if start < tensor_numel \<and> stop \<le> tensor_numel then
           (case mean_of_chunks fl final_output num_nodes of
              Inl e \<Rightarrow> Inl e
            | Inr mean \<Rightarrow>
                if numel (fst (alloc (Floating fl) mean h)) = partition_size
                then Inr (Some (fst (alloc (Floating fl) mean h)),
                          snd (alloc (Floating fl) mean h))
                else Inl AssertionError)
         else if start < tensor_numel then
           (case mean_of_chunks fl final_output num_nodes of
              Inl e \<Rightarrow> Inl e
            | Inr mean \<Rightarrow>
               (case narrow (fst (alloc (Floating fl) mean h)) 0 (tensor_numel - start) of
                  Inl e \<Rightarrow> Inl e
                | Inr out \<Rightarrow>
                    if this_rank = global_world_size - 1
                    then Inr (Some out, snd (alloc (Floating fl) mean h))
                    else Inl AssertionError))
         else Inr (None, h))"

text \<open>
  Lines 45--110, one iteration of the loop over the tensors.

  A one-dimensional tensor goes through \<open>reduce_scatter_coalesced\<close> on its own;
  \<open>peers idx r\<close> is the memory and argument of rank \<open>r\<close> at that call (this rank's
  entry is its own memory and tensor).

  Lines 83--98 (\<^verbatim>\<open>swizzle_quant\<close>, the two pairs of \<^verbatim>\<open>all_to_all_single\<close>,
  \<^verbatim>\<open>quantized_reduction\<close>, \<^verbatim>\<open>dequantize\<close> and the lookups in \<^verbatim>\<open>groups\<close>) belong to
  the quantizer kernels and the transport, which are not among the sources; they are
  the parameter \<open>quantized_exchange\<close>, from the contents of \<^verbatim>\<open>flat_tensor\<close>, the intra
  group size and the inter group size to \<^verbatim>\<open>final_output\<close>, or to an error.
  \<^verbatim>\<open>final_output\<close> is what \<^verbatim>\<open>dequantize\<close> returns, a floating-point tensor: the
  parameter gives the rounding of its format and its flattened values.
\<close>

definition reduce_one ::
  "nat \<Rightarrow> nat \<Rightarrow> nat \<Rightarrow> (real list \<Rightarrow> nat \<Rightarrow> nat \<Rightarrow> error + (real \<Rightarrow> real) \<times> real list)
    \<Rightarrow> (nat \<Rightarrow> heap \<times> tensor list) \<Rightarrow> group_cache \<Rightarrow> tensor \<Rightarrow> heap
    \<Rightarrow> error + (tensor option \<times> group_cache \<times> heap)" where
  "reduce_one local_world_size global_world_size this_rank quantized_exchange peers_at_idx
       intra_group_cache t h =
     (if dim t = 1 then
        (case reduce_scatter_coalesced this_rank global_world_size
                (peers_at_idx(this_rank := (h, [t]))) of
           Inl e \<Rightarrow> Inl e
         | Inr ([], h') \<Rightarrow> Inl IndexError
         | Inr (out # outs, h') \<Rightarrow> Inr (Some out, intra_group_cache, h'))
      else
        (case align_tensor global_world_size t h of
           Inl e \<Rightarrow> Inl e
         | Inr (flat_tensor, h1) \<Rightarrow>
            (case intra_group_size intra_group_cache (numel flat_tensor) global_world_size
                    (numel t) of
               Inl e \<Rightarrow> Inl e
             | Inr (intra_quant_group, cache') \<Rightarrow>
                (case quantized_exchange (read h1 flat_tensor) intra_quant_group
                        (intra_quant_group div local_world_size) of
                   Inl e \<Rightarrow> Inl e
                 | Inr (fl, final_output) \<Rightarrow>
                    (case finalize global_world_size (global_world_size div local_world_size)
                            this_rank (numel t) (numel flat_tensor) fl final_output h1 of
                       Inl e \<Rightarrow> Inl e
                     | Inr (out, h2) \<Rightarrow> Inr (out, cache', h2))))))"

text \<open>Lines 44--110: the loop over the tensors, filling \<^verbatim>\<open>output_lst\<close> in order.\<close>

fun reduce_loop ::
  "nat \<Rightarrow> nat \<Rightarrow> nat \<Rightarrow> (real list \<Rightarrow> nat \<Rightarrow> nat \<Rightarrow> error + (real \<Rightarrow> real) \<times> real list)
    \<Rightarrow> (nat \<Rightarrow> nat \<Rightarrow> heap \<times> tensor list) \<Rightarrow> nat \<Rightarrow> tensor list \<Rightarrow> group_cache \<Rightarrow> heap
    \<Rightarrow> error + (tensor option list \<times> group_cache \<times> heap)" where
  "reduce_loop local_world_size global_world_size this_rank quantized_exchange peers idx []
       intra_group_cache h = Inr ([], intra_group_cache, h)"
| "reduce_loop local_world_size global_world_size this_rank quantized_exchange peers idx
       (t # rest) intra_group_cache h =
     (case reduce_one local_world_size global_world_size this_rank quantized_exchange
             (peers idx) intra_group_cache t h of
        Inl e \<Rightarrow> Inl e
      | Inr (out, cache', h') \<Rightarrow>
         (case reduce_loop local_world_size global_world_size this_rank quantized_exchange
                 peers (Suc idx) rest cache' h' of
            Inl e \<Rightarrow> Inl e
          | Inr (outs, cache'', h'') \<Rightarrow> Inr (out # outs, cache'', h'')))"

text \<open>
  Line 42: every call starts with \<^verbatim>\<open>intra_group_cache = dict()\<close>, a local variable.
\<close>

definition intra_group_cache_at_entry :: group_cache where
  "intra_group_cache_at_entry = Map.empty"

text \<open>
  \<^verbatim>\<open>all_to_all_quant_reduce\<close>, as run by rank \<open>this_rank\<close>. Lines 37 and 39 divide by
  \<open>local_world_size\<close>. Loading the quantizer module once per process (lines 32--34)
  has no part in what the function returns and is left out. The result is
  \<^verbatim>\<open>output_lst\<close> (an entry is \<open>None\<close> when the loop assigned nothing to it) and the
  memory after the call; the cache is dropped at the return.
\<close>

definition all_to_all_quant_reduce ::
  "nat \<Rightarrow> nat \<Rightarrow> nat \<Rightarrow> (real list \<Rightarrow> nat \<Rightarrow> nat \<Rightarrow> error + (real \<Rightarrow> real) \<times> real list)
    \<Rightarrow> (nat \<Rightarrow> nat \<Rightarrow> heap \<times> tensor list) \<Rightarrow> tensor list \<Rightarrow> heap
    \<Rightarrow> error + (tensor option list \<times> heap)" where
  "all_to_all_quant_reduce local_world_size global_world_size this_rank quantized_exchange
       peers tensors h =
     (if local_world_size = 0 then Inl ZeroDivisionError
      else
        (case reduce_loop local_world_size global_world_size this_rank quantized_exchange
                peers 0 tensors intra_group_cache_at_entry h of
           Inl e \<Rightarrow> Inl e
         | Inr (output_lst, cache, h') \<Rightarrow> Inr (output_lst, h')))"

section \<open>Notions of the specification\<close>

text \<open>
  The spec's \<open>partition_length(buffer, rank)\<close>:
  \<open>min(ceil(numel / world_size), max(0, numel - rank * ceil(numel / world_size)))\<close>
  (the subtraction on \<open>nat\<close> stops at 0).
\<close>

definition partition_length :: "nat \<Rightarrow> nat \<Rightarrow> nat \<Rightarrow> nat" where
  "partition_length n world_sz rank =
     min (ceil_div n world_sz) (n - rank * ceil_div n world_sz)"

text \<open>
  The situation in which the collective is called: every rank passes valid tensors of
  one floating-point dtype, whose rounding is \<open>fl\<close>, and all ranks pass tensors of the
  same element counts as this rank.
\<close>

definition well_formed_world ::
  "(real \<Rightarrow> real) \<Rightarrow> nat \<Rightarrow> nat \<Rightarrow> (nat \<Rightarrow> heap \<times> tensor list) \<Rightarrow> bool" where
  "well_formed_world fl world_sz this_rank world =
     list_all (\<lambda>r. list_all (\<lambda>t. valid (fst (world r)) t \<and> dtype t = Floating fl)
                      (snd (world r))
                  \<and> map numel (snd (world r)) = map numel (snd (world this_rank)))
       [0..<world_sz]"

text \<open>
  The elementwise sum of the participants' buffers of \<open>n\<close> elements, divided by the
  world size, in exact arithmetic; the same with the code's order and rounding (every
  element divided by the world size and rounded, then the quotients added up in rank
  order, every partial sum rounded); and the partition of a flat list that belongs to a
  rank (chunks of \<open>ceil (length / world_sz)\<close> elements, the last ones shorter or
  empty).
\<close>

definition elementwise_average :: "real list list \<Rightarrow> nat \<Rightarrow> nat \<Rightarrow> real list" where
  "elementwise_average inputs n world_sz =
     map (\<lambda>j. sum_list (map (\<lambda>x. x ! j) inputs) / real world_sz) [0..<n]"

definition predivided_sum ::
  "(real \<Rightarrow> real) \<Rightarrow> real list list \<Rightarrow> nat \<Rightarrow> nat \<Rightarrow> real list" where
  "predivided_sum fl inputs n world_sz =
     sum_reduce (Floating fl) (map (map (\<lambda>x. fl (x / real world_sz))) inputs) n"

definition rank_partition :: "nat \<Rightarrow> nat \<Rightarrow> real list \<Rightarrow> real list" where
  "rank_partition world_sz rank xs =
     take (ceil_div (length xs) world_sz) (drop (rank * ceil_div (length xs) world_sz) xs)"

section \<open>Auxiliary notions for the proofs\<close>

text \<open>
  The values of a list of tensors laid end to end; tensors that live in allocated
  buffers; a memory that has only grown; the offset of a tensor's slot inside a rank's
  shard and the length of a shard; and the layout of one rank's block and of the whole
  interleaved buffer in terms of the tensors' own values.
\<close>

definition flat_values :: "heap \<Rightarrow> tensor list \<Rightarrow> real list" where
  "flat_values h lst = concat (map (read h) lst)"

definition in_heap :: "heap \<Rightarrow> tensor list \<Rightarrow> bool" where
  "in_heap h lst = list_all (\<lambda>t. buf t < length (bufs h)) lst"

definition extends :: "heap \<Rightarrow> heap \<Rightarrow> bool" where
  "extends h0 h = ((\<exists>ex. bufs h = bufs h0 @ ex) \<and> uninit h = uninit h0)"

definition offset_of :: "nat \<Rightarrow> tensor list \<Rightarrow> nat \<Rightarrow> nat" where
  "offset_of world_sz ts i = sum_list (take i (map (\<lambda>t. ceil_div (numel t) world_sz) ts))"

definition block_spec :: "nat \<Rightarrow> heap \<Rightarrow> tensor list \<Rightarrow> nat \<Rightarrow> nat \<Rightarrow> real list \<Rightarrow> bool" where
  "block_spec world_sz h ts rank k block =
     (length block = offset_of world_sz ts k \<and>
      (\<forall>i<k. \<forall>j<partition_length (numel (ts ! i)) world_sz rank.
         block ! (offset_of world_sz ts i + j)
           = read h (ts ! i) ! (rank * ceil_div (numel (ts ! i)) world_sz + j)))"

definition shard_size :: "nat \<Rightarrow> tensor list \<Rightarrow> nat" where
  "shard_size world_sz ts = offset_of world_sz ts (length ts)"

definition data_spec :: "nat \<Rightarrow> heap \<Rightarrow> tensor list \<Rightarrow> nat \<Rightarrow> real list \<Rightarrow> bool" where
  "data_spec world_sz h ts m data =
     (length data = m * shard_size world_sz ts \<and>
      (\<forall>rank<m. \<forall>i<length ts. \<forall>j<partition_length (numel (ts ! i)) world_sz rank.
         data ! (rank * shard_size world_sz ts + offset_of world_sz ts i + j)
           = read h (ts ! i) ! (rank * ceil_div (numel (ts ! i)) world_sz + j)))"

text \<open>
  Element \<open>k\<close> of buffer \<open>i\<close> as the collective leaves it: every rank's element
  divided by the world size and rounded, the quotients added up in rank order.
\<close>

definition reduced_element ::
  "(real \<Rightarrow> real) \<Rightarrow> nat \<Rightarrow> (nat \<Rightarrow> heap \<times> tensor list) \<Rightarrow> nat \<Rightarrow> nat \<Rightarrow> real" where
  "reduced_element fl world_sz world i k =
     dtype_sum (Floating fl)
       (map (\<lambda>r'. fl (read (fst (world r')) (snd (world r') ! i) ! k / real world_sz))
          [0..<world_sz])"


section \<open>Concrete inputs\<close>

text \<open>
  Rounding functions: none (exact arithmetic), and rounding to the nearest multiple of
  a spacing, ties to the even multiple, as IEEE formats round. With the spacing
  \<open>2\<^sup>-\<^sup>1\<^sup>4\<^sup>9\<close> it is what float32 does to results below \<open>2\<^sup>-\<^sup>1\<^sup>2\<^sup>6\<close> in magnitude, where
  the numbers of float32 are the multiples of \<open>2\<^sup>-\<^sup>1\<^sup>4\<^sup>9\<close>.
\<close>

definition no_rounding :: "real \<Rightarrow> real" where
  "no_rounding x = x"

definition round_half_even :: "real \<Rightarrow> int" where
  "round_half_even y =
     (if y - of_int \<lfloor>y\<rfloor> < 1 / 2 then \<lfloor>y\<rfloor>
      else if 1 / 2 < y - of_int \<lfloor>y\<rfloor> then \<lfloor>y\<rfloor> + 1
      else if even \<lfloor>y\<rfloor> then \<lfloor>y\<rfloor> else \<lfloor>y\<rfloor> + 1)"

definition round_to_spacing :: "real \<Rightarrow> real \<Rightarrow> real" where
  "round_to_spacing q x = q * of_int (round_half_even (x / q))"

definition float32_spacing :: real where
  "float32_spacing = 1 / 2 ^ 149"

text \<open>
  Two ranks with one buffer of three elements each (\<open>example_world\<close>, the general path
  with padding); with two buffers each, of three and of two elements, in a given
  format (\<open>example_world_pair\<close>); with one buffer of four elements each
  (\<open>example_world_even\<close>, the fast path); one rank with one buffer
  (\<open>example_world_single\<close>); two ranks whose buffer of two elements holds the smallest
  positive number of float32 (\<open>example_world_tiny\<close>); two ranks with a buffer of
  two integers (\<open>example_world_integral\<close>). For the quantized path, one two-dimensional
  buffer of 17 elements among eight ranks on one node, with a quantized exchange that
  delivers three elements.
\<close>

definition example_heap :: "real \<Rightarrow> heap" where
  "example_heap v = \<lparr>bufs = [[v, 2, 3]], uninit = (\<lambda>b i. 7)\<rparr>"

definition example_heap_pair :: "real \<Rightarrow> heap" where
  "example_heap_pair v = \<lparr>bufs = [[v, 2, 3 + 8 * v], [10, 20 + 20 * v]], uninit = (\<lambda>b i. 7)\<rparr>"

definition example_heap_even :: "real \<Rightarrow> heap" where
  "example_heap_even v = \<lparr>bufs = [[v, 4, 6 * v, 8]], uninit = (\<lambda>b i. 7)\<rparr>"

definition example_heap_tiny :: heap where
  "example_heap_tiny = \<lparr>bufs = [[float32_spacing, float32_spacing]], uninit = (\<lambda>b i. 7)\<rparr>"

definition example_world :: "nat \<Rightarrow> heap \<times> tensor list" where
  "example_world r =
     (example_heap (real r),
      [\<lparr>buf = 0, off = 0, numel = 3, dim = 1, dtype = Floating no_rounding\<rparr>])"

definition example_world_pair :: "(real \<Rightarrow> real) \<Rightarrow> nat \<Rightarrow> heap \<times> tensor list" where
  "example_world_pair fl r =
     (example_heap_pair (real r),
      [\<lparr>buf = 0, off = 0, numel = 3, dim = 1, dtype = Floating fl\<rparr>,
       \<lparr>buf = Suc 0, off = 0, numel = 2, dim = 1, dtype = Floating fl\<rparr>])"

definition example_world_even :: "nat \<Rightarrow> heap \<times> tensor list" where
  "example_world_even r =
     (example_heap_even (real r + 1),
      [\<lparr>buf = 0, off = 0, numel = 4, dim = 2, dtype = Floating no_rounding\<rparr>])"

definition example_world_single :: "nat \<Rightarrow> heap \<times> tensor list" where
  "example_world_single r =
     (example_heap 1,
      [\<lparr>buf = 0, off = 0, numel = 3, dim = 1, dtype = Floating no_rounding\<rparr>])"

definition example_world_tiny :: "nat \<Rightarrow> heap \<times> tensor list" where
  "example_world_tiny r =
     (example_heap_tiny,
      [\<lparr>buf = 0, off = 0, numel = 2, dim = 1,
        dtype = Floating (round_to_spacing float32_spacing)\<rparr>])"

definition example_world_integral :: "nat \<Rightarrow> heap \<times> tensor list" where
  "example_world_integral r =
     (example_heap 1, [\<lparr>buf = 0, off = 0, numel = 2, dim = 1, dtype = Integral\<rparr>])"

definition example_grad :: tensor where
  "example_grad = \<lparr>buf = 0, off = 0, numel = 17, dim = 2, dtype = Floating no_rounding\<rparr>"

definition example_grad_heap :: heap where
  "example_grad_heap = \<lparr>bufs = [replicate 17 1], uninit = (\<lambda>b i. 7)\<rparr>"

definition example_exchange ::
  "real list \<Rightarrow> nat \<Rightarrow> nat \<Rightarrow> error + (real \<Rightarrow> real) \<times> real list" where
  "example_exchange flat_tensor intra_quant_group inter_quant_group
     = Inr (no_rounding, replicate 3 1)"

definition example_peers :: "nat \<Rightarrow> nat \<Rightarrow> heap \<times> tensor list" where
  "example_peers idx r = (example_grad_heap, [])"

section \<open>Properties of the solver\<close>

lemma increment_search_finds:
  assumes "0 < w" and "w dvd a" and "w dvd g" and "0 < g" and "g \<le> a"
  shows "\<exists>g'. increment_search a w g = Inr g' \<and> w dvd g' \<and> g' dvd a
           \<and> a \<le> max_elems_per_intra_group * g' \<and> 0 < g' \<and> g' \<le> a"
  using assms
proof (induction a w g rule: increment_search.induct)
  case (1 a w g)
  show ?case
  proof (cases "g < a")
    case False
    with "1.prems" have "g = a" by simp
    with "1.prems" show ?thesis
      by (simp add: increment_search.simps [of a w a] max_elems_per_intra_group_def)
  next
    case lt: True
    show ?thesis
    proof (cases "a mod g = 0 \<and> a \<le> max_elems_per_intra_group * g")
      case True
      with lt "1.prems" show ?thesis
        by (simp add: increment_search.simps [of a w g] mod_eq_0_iff_dvd)
    next
      case False
      from \<open>w dvd a\<close> obtain k where a: "a = w * k" ..
      from \<open>w dvd g\<close> obtain j where g: "g = w * j" ..
      from lt have "w * j < w * k" unfolding a g .
      then have "j < k" by simp
      then have "Suc j \<le> k" by simp
      then have "w * Suc j \<le> w * k" by (rule mult_le_mono2)
      with a g have le: "g + w \<le> a" by simp
      have "\<exists>g'. increment_search a w (g + w) = Inr g' \<and> w dvd g' \<and> g' dvd a
           \<and> a \<le> max_elems_per_intra_group * g' \<and> 0 < g' \<and> g' \<le> a"
        using "1.IH" lt False "1.prems" le by simp
      moreover have "increment_search a w g = increment_search a w (g + w)"
        using lt False "1.prems" by (subst increment_search.simps) auto
      ultimately show ?thesis by simp
    qed
  qed
qed

lemma doubling_loop_idle:
  "0 < g \<Longrightarrow> a \<le> max_elems_per_intra_group * g \<Longrightarrow> doubling_loop a g = Inr g"
  by (subst doubling_loop.simps) (simp add: doubling_guard_def)

lemma adaptive_group_size_props:
  assumes "0 < w" and "0 < a" and "w dvd a"
  shows "\<exists>g. increment_search a w w = Inr g \<and> adaptive_group_size a w = Inr g
           \<and> w dvd g \<and> g dvd a \<and> a \<le> max_elems_per_intra_group * g \<and> 0 < g \<and> g \<le> a"
proof -
  from assms have "w \<le> a" by (auto dest: dvd_imp_le)
  with assms increment_search_finds [of w a w] obtain g
    where g: "increment_search a w w = Inr g" "w dvd g" "g dvd a"
      "a \<le> max_elems_per_intra_group * g" "0 < g" "g \<le> a"
    by auto
  then have "adaptive_group_size a w = Inr g"
    by (simp add: adaptive_group_size_def doubling_loop_idle)
  with g show ?thesis by simp
qed

text \<open>
  C5. For every aligned size that is a positive multiple of the world size the solver
  (the increment-by-world-size search followed by the doubling loop) returns a group
  size \<open>g\<close>; \<open>g\<close> is a multiple of the world size, divides the aligned size, and
  \<open>aligned_size / g \<le> 40960\<close>.
\<close>

theorem solver_terminates_with_valid_group:
  assumes "0 < global_world_size" and "0 < aligned_size"
    and "global_world_size dvd aligned_size"
  shows "\<exists>g. adaptive_group_size aligned_size global_world_size = Inr g
           \<and> global_world_size dvd g \<and> g dvd aligned_size \<and> aligned_size div g \<le> 40960"
proof -
  from adaptive_group_size_props [OF assms] obtain g
    where g: "adaptive_group_size aligned_size global_world_size = Inr g"
      "global_world_size dvd g" "g dvd aligned_size"
      "aligned_size \<le> max_elems_per_intra_group * g" "0 < g"
    by blast
  from g(4) have "aligned_size div g \<le> (40960 * g) div g"
    unfolding max_elems_per_intra_group_def by (rule div_le_mono)
  with g(5) have "aligned_size div g \<le> 40960" by simp
  with g show ?thesis by blast
qed

theorem solver_terminates_with_valid_group_witness:
  "(0::nat) < 8 \<and> (0::nat) < 24 \<and> (8::nat) dvd 24
     \<and> adaptive_group_size 24 8 = Inr 8 \<and> (8::nat) dvd 8 \<and> (8::nat) dvd 24
     \<and> (24::nat) div 8 \<le> 40960"
proof -
  have "increment_search 24 8 8 = Inr 8"
    by (subst increment_search.simps) (simp add: max_elems_per_intra_group_def)
  moreover have "doubling_loop 24 8 = Inr 8"
    by (subst doubling_loop.simps) (simp add: doubling_guard_def)
  ultimately have "adaptive_group_size 24 8 = Inr 8"
    by (simp add: adaptive_group_size_def)
  with solver_terminates_with_valid_group [of 8 24] show ?thesis by simp
qed

text \<open>
  C6, as stated. The claim needs an aligned size (a positive multiple of the world size)
  at which the candidate left by the increment search still has
  \<open>aligned_size / g > 40960\<close>, so that the doubling guard holds and the loop doubles at
  least once. No such aligned size exists.
\<close>

theorem doubling_never_engages_counterexample:
  "\<not> (\<exists>aligned_size global_world_size g. 0 < global_world_size \<and> 0 < aligned_size
        \<and> global_world_size dvd aligned_size
        \<and> increment_search aligned_size global_world_size global_world_size = Inr g
        \<and> doubling_guard aligned_size g)"
proof
  assume "\<exists>aligned_size global_world_size g. 0 < global_world_size \<and> 0 < aligned_size
        \<and> global_world_size dvd aligned_size
        \<and> increment_search aligned_size global_world_size global_world_size = Inr g
        \<and> doubling_guard aligned_size g"
  then obtain a w g where h: "0 < w" "0 < a" "w dvd a"
      "increment_search a w w = Inr g" "doubling_guard a g"
    by blast
  from adaptive_group_size_props [OF h(1,2,3)] h(4)
  have "a \<le> max_elems_per_intra_group * g" by auto
  with h(5) show False by (simp add: doubling_guard_def)
qed

text \<open>
  C6, amended. For every aligned size that is a positive multiple of the world size the
  increment search already leaves a candidate \<open>g\<close> with \<open>aligned_size / g \<le> 40960\<close>;
  the doubling guard is false on entry and the doubling loop returns \<open>g\<close> unchanged,
  without a single doubling.
\<close>

theorem doubling_loop_returns_candidate:
  assumes "0 < global_world_size" and "0 < aligned_size"
    and "global_world_size dvd aligned_size"
  shows "\<exists>g. increment_search aligned_size global_world_size global_world_size = Inr g
           \<and> aligned_size \<le> 40960 * g \<and> \<not> doubling_guard aligned_size g
           \<and> doubling_loop aligned_size g = Inr g"
proof -
  from adaptive_group_size_props [OF assms] obtain g
    where g: "increment_search aligned_size global_world_size global_world_size = Inr g"
      "aligned_size \<le> max_elems_per_intra_group * g" "0 < g"
    by blast
  from g(2) have "\<not> doubling_guard aligned_size g"
    by (simp add: doubling_guard_def)
  moreover from g(2,3) have "doubling_loop aligned_size g = Inr g"
    by (rule doubling_loop_idle [rotated])
  moreover from g(2) have "aligned_size \<le> 40960 * g"
    by (simp add: max_elems_per_intra_group_def)
  ultimately show ?thesis using g(1) by blast
qed

theorem doubling_loop_returns_candidate_witness:
  "(0::nat) < 2 \<and> (0::nat) < 163840 \<and> (2::nat) dvd 163840
     \<and> increment_search 163840 2 2 = Inr 4 \<and> (163840::nat) \<le> 40960 * 4
     \<and> \<not> doubling_guard 163840 4 \<and> doubling_loop 163840 4 = Inr 4"
proof -
  have "increment_search 163840 2 2 = increment_search 163840 2 4"
    by (subst increment_search.simps) (simp add: max_elems_per_intra_group_def)
  also have "\<dots> = Inr 4"
    by (subst increment_search.simps) (simp add: max_elems_per_intra_group_def)
  finally have s: "increment_search 163840 2 2 = Inr 4" .
  from doubling_loop_returns_candidate [of 2 163840] s show ?thesis by simp
qed

text \<open>
  C7, as stated. The claim has \<open>aligned_size / g < numel\<close> among the enforced checks.
  With one participant and a buffer of two elements the solver and its assertions
  accept \<open>g = 1\<close>, although \<open>aligned_size / g = 2\<close> is not below \<open>numel = 2\<close>.
\<close>

theorem quotient_below_numel_not_enforced_counterexample:
  "solve_group_size 2 1 2 = Inr 1 \<and> \<not> (2::nat) div 1 < 2"
proof -
  have "increment_search 2 1 1 = Inr 1"
    by (subst increment_search.simps) (simp add: max_elems_per_intra_group_def)
  moreover have "doubling_loop 2 1 = Inr 1"
    by (subst doubling_loop.simps) (simp add: doubling_guard_def max_elems_per_intra_group_def)
  ultimately show ?thesis
    by (simp add: solve_group_size_def adaptive_group_size_def check_group_size_def
        max_elems_per_intra_group_def)
qed

text \<open>
  C7, amended. For an aligned size that is a positive multiple of the world size and at
  least the buffer's true element count, lines 62--80 either return a group size \<open>g\<close>
  or fail with an assertion error, which nothing catches. A returned \<open>g\<close> is a multiple
  of the world size, has \<open>aligned_size / g \<le> 40960\<close> and \<open>g < numel\<close> (the three
  assertions), and it divides the aligned size (by construction of the search). The
  single-group case \<open>g = aligned_size\<close> is always rejected. The check on the element
  count is \<open>numel > g\<close>, not \<open>aligned_size / g < numel\<close>.
\<close>

theorem group_size_checks_enforced:
  assumes "0 < global_world_size" and "0 < aligned_size"
    and "global_world_size dvd aligned_size" and "tensor_numel \<le> aligned_size"
  shows "(\<exists>g. solve_group_size aligned_size global_world_size tensor_numel = Inr g
            \<and> global_world_size dvd g \<and> g dvd aligned_size \<and> aligned_size div g \<le> 40960
            \<and> g < tensor_numel \<and> g \<noteq> aligned_size)
         \<or> (solve_group_size aligned_size global_world_size tensor_numel = Inl AssertionError
            \<and> (\<exists>g. adaptive_group_size aligned_size global_world_size = Inr g
                  \<and> tensor_numel \<le> g))"
proof -
  from adaptive_group_size_props [OF assms(1,2,3)] obtain g
    where g: "adaptive_group_size aligned_size global_world_size = Inr g"
      "global_world_size dvd g" "g dvd aligned_size"
      "aligned_size \<le> max_elems_per_intra_group * g" "0 < g"
    by blast
  from g(4) have "aligned_size div g \<le> (40960 * g) div g"
    unfolding max_elems_per_intra_group_def by (rule div_le_mono)
  with g(5) have q: "aligned_size div g \<le> 40960" by simp
  show ?thesis
  proof (cases "g < tensor_numel")
    case True
    with g assms(1) have "solve_group_size aligned_size global_world_size tensor_numel = Inr g"
      by (simp add: solve_group_size_def check_group_size_def mod_eq_0_iff_dvd)
    moreover from True assms(4) have "g \<noteq> aligned_size" by simp
    ultimately show ?thesis using g q True by blast
  next
    case False
    with g assms(1)
    have "solve_group_size aligned_size global_world_size tensor_numel = Inl AssertionError"
      by (simp add: solve_group_size_def check_group_size_def mod_eq_0_iff_dvd)
    with False g(1) show ?thesis by auto
  qed
qed

theorem group_size_checks_enforced_witness:
  "(0::nat) < 8 \<and> (0::nat) < 24 \<and> (8::nat) dvd 24 \<and> (17::nat) \<le> 24
     \<and> solve_group_size 24 8 17 = Inr 8 \<and> solve_group_size 8 8 8 = Inl AssertionError"
proof -
  have a: "adaptive_group_size 24 8 = Inr 8"
    by (simp add: adaptive_group_size_def increment_search.simps [of 24 8 8]
        doubling_loop.simps [of 24 8] doubling_guard_def max_elems_per_intra_group_def)
  have b: "adaptive_group_size 8 8 = Inr 8"
    by (simp add: adaptive_group_size_def increment_search.simps [of 8 8 8]
        doubling_loop.simps [of 8 8] doubling_guard_def max_elems_per_intra_group_def)
  from group_size_checks_enforced [of 8 24 17] a
  have "solve_group_size 24 8 17 = Inr 8"
    by (auto simp: solve_group_size_def check_group_size_def max_elems_per_intra_group_def)
  moreover from group_size_checks_enforced [of 8 8 8] b
  have "solve_group_size 8 8 8 = Inl AssertionError"
    by (auto simp: solve_group_size_def check_group_size_def max_elems_per_intra_group_def)
  ultimately show ?thesis by simp
qed

section \<open>Properties of the tensor operations and of the interleaving\<close>

lemma length_read: "valid h t \<Longrightarrow> length (read h t) = numel t"
  by (auto simp: valid_def read_def)

lemma read_view_flat [simp]: "read h (view_flat t) = read h t"
  by (simp add: read_def view_flat_def)

lemma numel_view_flat [simp]: "numel (view_flat t) = numel t"
  by (simp add: view_flat_def)

lemma slice_numel: "numel (slice t a (a + c)) = min c (numel t - a)"
  by (auto simp: slice_def min_def)

lemma numel_partition:
  "rank < world_sz \<Longrightarrow>
     numel (partition_lst world_sz t ! rank) = partition_length (numel t) world_sz rank"
  by (simp add: partition_lst_def Let_def slice_numel partition_length_def)

lemma read_slice:
  "read h (slice t a b) = take (min b (numel t) - min a (numel t)) (drop (min a (numel t)) (read h t))"
  by (simp add: read_def slice_def drop_take add.commute min_def)

lemma read_partition_nth:
  assumes "valid h t" and "rank < world_sz"
    and "j < partition_length (numel t) world_sz rank"
  shows "read h (partition_lst world_sz t ! rank) ! j
           = read h t ! (rank * ceil_div (numel t) world_sz + j)"
proof -
  let ?c = "ceil_div (numel t) world_sz"
  from assms(3) have lt: "rank * ?c + j < numel t"
    unfolding partition_length_def by linarith
  then have m: "min (rank * ?c) (numel t) = rank * ?c" by simp
  from assms(3) have j: "j < min (rank * ?c + ?c) (numel t) - min (rank * ?c) (numel t)"
    using slice_numel [of "view_flat t" "rank * ?c" ?c] by (simp add: partition_length_def slice_def)
  have "read h (partition_lst world_sz t ! rank)
      = take (min (rank * ?c + ?c) (numel t) - min (rank * ?c) (numel t))
          (drop (min (rank * ?c) (numel t)) (read h t))"
    using assms(2) by (simp add: partition_lst_def Let_def read_slice)
  with j m lt assms(1) show ?thesis
    by (simp add: length_read)
qed

lemma length_read_partition:
  assumes "valid h t" and "rank < world_sz"
  shows "length (read h (partition_lst world_sz t ! rank)) = partition_length (numel t) world_sz rank"
proof -
  have "valid h (partition_lst world_sz t ! rank)"
    using assms by (auto simp: partition_lst_def Let_def valid_def slice_def view_flat_def min_def)
  then show ?thesis using assms(2) by (simp add: length_read numel_partition)
qed

lemma extends_refl [simp]: "extends h h"
  by (simp add: extends_def)

lemma extends_trans: "extends h0 h1 \<Longrightarrow> extends h1 h2 \<Longrightarrow> extends h0 h2"
  by (auto simp: extends_def)

lemma extends_alloc: "extends h (snd (alloc d vs h))"
  by (simp add: extends_def alloc_def)

lemma extends_length: "extends h0 h \<Longrightarrow> length (bufs h0) \<le> length (bufs h)"
  by (auto simp: extends_def)

lemma read_extends: "extends h0 h \<Longrightarrow> buf t < length (bufs h0) \<Longrightarrow> read h t = read h0 t"
  by (auto simp: extends_def read_def nth_append)

lemma valid_extends: "extends h0 h \<Longrightarrow> valid h0 t \<Longrightarrow> valid h t"
  by (auto simp: extends_def valid_def nth_append)

lemma flat_values_extends:
  "extends h0 h \<Longrightarrow> in_heap h0 lst \<Longrightarrow> flat_values h lst = flat_values h0 lst"
  by (induction lst) (auto simp: flat_values_def in_heap_def read_extends)

lemma in_heap_extends: "extends h0 h \<Longrightarrow> in_heap h0 lst \<Longrightarrow> in_heap h lst"
  by (induction lst) (auto simp: in_heap_def dest: extends_length)

lemma read_alloc_new [simp]: "read (snd (alloc d vs h)) (fst (alloc d vs h)) = vs"
  by (simp add: alloc_def read_def)

lemma buf_alloc_new: "buf (fst (alloc d vs h)) < length (bufs (snd (alloc d vs h)))"
  by (simp add: alloc_def)

lemma flat_values_append [simp]:
  "flat_values h (xs @ ys) = flat_values h xs @ flat_values h ys"
  by (simp add: flat_values_def)

lemma flat_values_single [simp]: "flat_values h [t] = read h t"
  by (simp add: flat_values_def)

lemma in_heap_append [simp]: "in_heap h (xs @ ys) = (in_heap h xs \<and> in_heap h ys)"
  by (simp add: in_heap_def)

lemma in_heap_single [simp]: "in_heap h [t] = (buf t < length (bufs h))"
  by (simp add: in_heap_def)

lemma append_partition_step:
  assumes "in_heap h lst" and "buf (parts ! i ! rank) < length (bufs h)"
  shows "\<exists>pad. flat_values (snd (append_partition parts padded rank (lst, h) i))
                  (fst (append_partition parts padded rank (lst, h) i))
               = flat_values h lst @ read h (parts ! i ! rank) @ pad
             \<and> length pad = padded ! i - numel (parts ! i ! rank)
             \<and> in_heap (snd (append_partition parts padded rank (lst, h) i))
                  (fst (append_partition parts padded rank (lst, h) i))
             \<and> extends h (snd (append_partition parts padded rank (lst, h) i))
             \<and> length lst < length (fst (append_partition parts padded rank (lst, h) i))"
proof (cases "padded ! i - numel (parts ! i ! rank) > 0")
  case False
  with assms show ?thesis
    by (simp add: append_partition_def Let_def)
next
  case True
  let ?n = "padded ! i - numel (parts ! i ! rank)"
  let ?vs = "map (uninit h (length (bufs h))) [0..<?n]"
  let ?d = "dtype (parts ! i ! rank)"
  let ?h' = "snd (alloc ?d ?vs h)"
  have ap: "append_partition parts padded rank (lst, h) i
      = ((lst @ [parts ! i ! rank]) @ [fst (alloc ?d ?vs h)], ?h')"
    using True by (simp add: append_partition_def Let_def torch_empty_def)
  have ext: "extends h ?h'" by (rule extends_alloc)
  from assms have ih: "in_heap h (lst @ [parts ! i ! rank])" by simp
  have e: "flat_values ?h' (lst @ [parts ! i ! rank]) = flat_values h (lst @ [parts ! i ! rank])"
    using ext ih by (rule flat_values_extends)
  have "flat_values ?h' ((lst @ [parts ! i ! rank]) @ [fst (alloc ?d ?vs h)])
      = flat_values ?h' (lst @ [parts ! i ! rank]) @ ?vs"
    by (simp only: flat_values_append flat_values_single read_alloc_new)
  also have "\<dots> = flat_values h (lst @ [parts ! i ! rank]) @ ?vs"
    by (simp only: e)
  also have "\<dots> = flat_values h lst @ read h (parts ! i ! rank) @ ?vs"
    by (simp only: flat_values_append flat_values_single append_assoc)
  finally have v: "flat_values ?h' ((lst @ [parts ! i ! rank]) @ [fst (alloc ?d ?vs h)])
      = flat_values h lst @ read h (parts ! i ! rank) @ ?vs" .
  have "in_heap ?h' (lst @ [parts ! i ! rank])"
    using ext ih by (rule in_heap_extends)
  then have ih': "in_heap ?h' ((lst @ [parts ! i ! rank]) @ [fst (alloc ?d ?vs h)])"
    using buf_alloc_new [of ?d ?vs h] by (simp only: in_heap_append in_heap_single simp_thms)
  show ?thesis
    unfolding ap fst_conv snd_conv
    using v ih' ext by (intro exI [of _ ?vs]) simp
qed

lemma offset_of_0 [simp]: "offset_of world_sz ts 0 = 0"
  by (simp add: offset_of_def)

lemma offset_of_Suc:
  "k < length ts \<Longrightarrow>
     offset_of world_sz ts (Suc k) = offset_of world_sz ts k + ceil_div (numel (ts ! k)) world_sz"
  by (simp add: offset_of_def take_Suc_conv_app_nth)

lemma offset_of_mono: "i \<le> k \<Longrightarrow> offset_of world_sz ts i \<le> offset_of world_sz ts k"
proof -
  assume "i \<le> k"
  then obtain d where "k = i + d" by (auto simp: le_iff_add)
  then show ?thesis by (simp add: offset_of_def take_add)
qed

lemma partition_length_le: "partition_length n world_sz rank \<le> ceil_div n world_sz"
  by (simp add: partition_length_def)

lemma block_spec_0 [simp]: "block_spec world_sz h ts rank 0 []"
  by (simp add: block_spec_def)

lemma block_spec_Suc:
  assumes b: "block_spec world_sz h ts rank k block" and k: "k < length ts"
    and v: "valid h (ts ! k)" and r: "rank < world_sz"
    and p: "length pad = ceil_div (numel (ts ! k)) world_sz
               - partition_length (numel (ts ! k)) world_sz rank"
  shows "block_spec world_sz h ts rank (Suc k)
           (block @ read h (partition_lst world_sz (ts ! k) ! rank) @ pad)"
proof -
  let ?chunk = "read h (partition_lst world_sz (ts ! k) ! rank)"
  have lc: "length ?chunk = partition_length (numel (ts ! k)) world_sz rank"
    using v r by (rule length_read_partition)
  from b have lb: "length block = offset_of world_sz ts k"
    by (simp add: block_spec_def)
  have len: "length (block @ ?chunk @ pad) = offset_of world_sz ts (Suc k)"
    using lb lc p k partition_length_le [of "numel (ts ! k)" world_sz rank]
    by (simp add: offset_of_Suc)
  have nth: "(block @ ?chunk @ pad) ! (offset_of world_sz ts i + j)
           = read h (ts ! i) ! (rank * ceil_div (numel (ts ! i)) world_sz + j)"
    if i: "i < Suc k" and j: "j < partition_length (numel (ts ! i)) world_sz rank" for i j
  proof (cases "i = k")
    case True
    with j lc lb have "(block @ ?chunk @ pad) ! (offset_of world_sz ts i + j) = ?chunk ! j"
      by (simp add: nth_append)
    also have "\<dots> = read h (ts ! k) ! (rank * ceil_div (numel (ts ! k)) world_sz + j)"
      using v r j True by (simp add: read_partition_nth)
    finally show ?thesis using True by simp
  next
    case False
    with i have ik: "i < k" by simp
    with k have "offset_of world_sz ts (Suc i) = offset_of world_sz ts i
        + ceil_div (numel (ts ! i)) world_sz"
      by (simp add: offset_of_Suc)
    moreover have "offset_of world_sz ts (Suc i) \<le> offset_of world_sz ts k"
      using ik by (intro offset_of_mono) simp
    ultimately have "offset_of world_sz ts i + j < length block"
      using j partition_length_le [of "numel (ts ! i)" world_sz rank] lb by linarith
    then have "(block @ ?chunk @ pad) ! (offset_of world_sz ts i + j)
        = block ! (offset_of world_sz ts i + j)"
      by (simp add: nth_append)
    with b ik j show ?thesis by (simp add: block_spec_def)
  qed
  from len nth show ?thesis
    unfolding block_spec_def by blast
qed

lemma inner_loop:
  assumes r: "rank < world_sz" and val: "list_all (valid h0) ts"
    and ext: "extends h0 h" and ih: "in_heap h lst" and k: "k \<le> length ts"
  shows "\<exists>block.
      flat_values
        (snd (foldl (append_partition (map (partition_lst world_sz) ts)
                 (map (\<lambda>t. ceil_div (numel t) world_sz) ts) rank) (lst, h) [0..<k]))
        (fst (foldl (append_partition (map (partition_lst world_sz) ts)
                 (map (\<lambda>t. ceil_div (numel t) world_sz) ts) rank) (lst, h) [0..<k]))
        = flat_values h lst @ block
    \<and> block_spec world_sz h0 ts rank k block
    \<and> in_heap
        (snd (foldl (append_partition (map (partition_lst world_sz) ts)
                 (map (\<lambda>t. ceil_div (numel t) world_sz) ts) rank) (lst, h) [0..<k]))
        (fst (foldl (append_partition (map (partition_lst world_sz) ts)
                 (map (\<lambda>t. ceil_div (numel t) world_sz) ts) rank) (lst, h) [0..<k]))
    \<and> extends h0
        (snd (foldl (append_partition (map (partition_lst world_sz) ts)
                 (map (\<lambda>t. ceil_div (numel t) world_sz) ts) rank) (lst, h) [0..<k]))
    \<and> length lst + k
        \<le> length (fst (foldl (append_partition (map (partition_lst world_sz) ts)
                 (map (\<lambda>t. ceil_div (numel t) world_sz) ts) rank) (lst, h) [0..<k]))"
  using k
proof (induction k)
  case 0
  with ext ih show ?case by simp
next
  case (Suc k)
  let ?parts = "map (partition_lst world_sz) ts"
  let ?padded = "map (\<lambda>t. ceil_div (numel t) world_sz) ts"
  let ?st = "foldl (append_partition ?parts ?padded rank) (lst, h) [0..<k]"
  let ?st' = "append_partition ?parts ?padded rank (fst ?st, snd ?st) k"
  from Suc.prems have k: "k < length ts" by simp
  from Suc.IH k obtain block where
    fv: "flat_values (snd ?st) (fst ?st) = flat_values h lst @ block"
    and bs: "block_spec world_sz h0 ts rank k block"
    and inh: "in_heap (snd ?st) (fst ?st)"
    and ex: "extends h0 (snd ?st)"
    and ln: "length lst + k \<le> length (fst ?st)"
    by auto
  from val k have vk: "valid h0 (ts ! k)" by (simp add: list_all_length)
  have chunk: "?parts ! k ! rank = partition_lst world_sz (ts ! k) ! rank"
    using k by simp
  have bk: "buf (?parts ! k ! rank) < length (bufs h0)"
    using vk r k by (simp add: partition_lst_def Let_def slice_def view_flat_def valid_def)
  with ex have bk': "buf (?parts ! k ! rank) < length (bufs (snd ?st))"
    by (auto dest: extends_length)
  from append_partition_step [OF inh bk', of ?padded] obtain pad where
    fv': "flat_values (snd ?st') (fst ?st')
            = flat_values (snd ?st) (fst ?st) @ read (snd ?st) (?parts ! k ! rank) @ pad"
    and lp: "length pad = ?padded ! k - numel (?parts ! k ! rank)"
    and inh': "in_heap (snd ?st') (fst ?st')"
    and ex': "extends (snd ?st) (snd ?st')"
    and ln': "length (fst ?st) < length (fst ?st')"
    by blast
  have rd: "read (snd ?st) (?parts ! k ! rank) = read h0 (partition_lst world_sz (ts ! k) ! rank)"
    using read_extends [OF ex bk] chunk by simp
  have lp': "length pad = ceil_div (numel (ts ! k)) world_sz
               - partition_length (numel (ts ! k)) world_sz rank"
    using lp k r by (simp add: numel_partition)
  have bs': "block_spec world_sz h0 ts rank (Suc k)
           (block @ read h0 (partition_lst world_sz (ts ! k) ! rank) @ pad)"
    using bs k vk r lp' by (rule block_spec_Suc)
  have st: "foldl (append_partition ?parts ?padded rank) (lst, h) [0..<Suc k] = ?st'"
    by simp
  have "flat_values (snd ?st') (fst ?st')
      = flat_values h lst @ (block @ read h0 (partition_lst world_sz (ts ! k) ! rank) @ pad)"
    unfolding fv' fv rd by simp
  moreover have "extends h0 (snd ?st')"
    using ex ex' by (rule extends_trans)
  moreover have "length lst + Suc k \<le> length (fst ?st')"
    using ln ln' by simp
  ultimately show ?case
    unfolding st using bs' inh' by blast
qed

lemma segment_in_shard:
  assumes "i < length ts" and "j < partition_length (numel (ts ! i)) world_sz rank"
  shows "offset_of world_sz ts i + j < shard_size world_sz ts"
proof -
  from assms(1) have "offset_of world_sz ts (Suc i)
      = offset_of world_sz ts i + ceil_div (numel (ts ! i)) world_sz"
    by (rule offset_of_Suc)
  moreover from assms(1) have "offset_of world_sz ts (Suc i) \<le> shard_size world_sz ts"
    unfolding shard_size_def by (intro offset_of_mono) simp
  ultimately show ?thesis
    using assms(2) partition_length_le [of "numel (ts ! i)" world_sz rank] by linarith
qed

lemma data_spec_Suc:
  assumes d: "data_spec world_sz h ts m data"
    and b: "block_spec world_sz h ts m (length ts) block"
  shows "data_spec world_sz h ts (Suc m) (data @ block)"
proof -
  let ?S = "shard_size world_sz ts"
  from d have ld: "length data = m * ?S" by (simp add: data_spec_def)
  from b have lb: "length block = ?S" by (simp add: block_spec_def shard_size_def)
  have nth: "(data @ block) ! (rank * ?S + offset_of world_sz ts i + j)
      = read h (ts ! i) ! (rank * ceil_div (numel (ts ! i)) world_sz + j)"
    if r: "rank < Suc m" and i: "i < length ts"
      and j: "j < partition_length (numel (ts ! i)) world_sz rank" for rank i j
  proof -
    from i j have x: "offset_of world_sz ts i + j < ?S" by (rule segment_in_shard)
    show ?thesis
    proof (cases "rank = m")
      case True
      then have "(data @ block) ! (rank * ?S + offset_of world_sz ts i + j)
          = block ! (offset_of world_sz ts i + j)"
        using ld by (simp add: nth_append add.assoc)
      with b i j True show ?thesis by (simp add: block_spec_def)
    next
      case False
      with r have rm: "rank < m" by simp
      then have "Suc rank \<le> m" by simp
      then have "Suc rank * ?S \<le> m * ?S" by (rule mult_le_mono1)
      with x have "rank * ?S + offset_of world_sz ts i + j < length data"
        unfolding ld by simp
      then have "(data @ block) ! (rank * ?S + offset_of world_sz ts i + j)
          = data ! (rank * ?S + offset_of world_sz ts i + j)"
        by (simp add: nth_append)
      with d rm i j show ?thesis by (simp add: data_spec_def)
    qed
  qed
  from ld lb nth show ?thesis
    unfolding data_spec_def by simp
qed

lemma outer_loop:
  assumes val: "list_all (valid h0) ts" and m: "m \<le> world_sz"
  shows "\<exists>data.
      flat_values
        (snd (foldl (\<lambda>st rank. foldl (append_partition (map (partition_lst world_sz) ts)
                 (map (\<lambda>t. ceil_div (numel t) world_sz) ts) rank) st [0..<length ts])
               ([], h0) [0..<m]))
        (fst (foldl (\<lambda>st rank. foldl (append_partition (map (partition_lst world_sz) ts)
                 (map (\<lambda>t. ceil_div (numel t) world_sz) ts) rank) st [0..<length ts])
               ([], h0) [0..<m]))
        = data
    \<and> data_spec world_sz h0 ts m data
    \<and> extends h0
        (snd (foldl (\<lambda>st rank. foldl (append_partition (map (partition_lst world_sz) ts)
                 (map (\<lambda>t. ceil_div (numel t) world_sz) ts) rank) st [0..<length ts])
               ([], h0) [0..<m]))
    \<and> in_heap
        (snd (foldl (\<lambda>st rank. foldl (append_partition (map (partition_lst world_sz) ts)
                 (map (\<lambda>t. ceil_div (numel t) world_sz) ts) rank) st [0..<length ts])
               ([], h0) [0..<m]))
        (fst (foldl (\<lambda>st rank. foldl (append_partition (map (partition_lst world_sz) ts)
                 (map (\<lambda>t. ceil_div (numel t) world_sz) ts) rank) st [0..<length ts])
               ([], h0) [0..<m]))
    \<and> (0 < m \<and> ts \<noteq> [] \<longrightarrow>
        fst (foldl (\<lambda>st rank. foldl (append_partition (map (partition_lst world_sz) ts)
                 (map (\<lambda>t. ceil_div (numel t) world_sz) ts) rank) st [0..<length ts])
               ([], h0) [0..<m]) \<noteq> [])"
  using m
proof (induction m)
  case 0
  show ?case by (simp add: data_spec_def flat_values_def in_heap_def)
next
  case (Suc m)
  let ?inner = "\<lambda>st rank. foldl (append_partition (map (partition_lst world_sz) ts)
                 (map (\<lambda>t. ceil_div (numel t) world_sz) ts) rank) st [0..<length ts]"
  let ?st = "foldl ?inner ([], h0) [0..<m]"
  let ?st' = "?inner (fst ?st, snd ?st) m"
  from Suc.prems have m: "m < world_sz" by simp
  from Suc.IH m obtain data where
    fv: "flat_values (snd ?st) (fst ?st) = data"
    and ds: "data_spec world_sz h0 ts m data"
    and ex: "extends h0 (snd ?st)"
    and inh: "in_heap (snd ?st) (fst ?st)"
    by auto
  from inner_loop [OF m val ex inh le_refl] obtain block where
    fv': "flat_values (snd ?st') (fst ?st') = flat_values (snd ?st) (fst ?st) @ block"
    and bs: "block_spec world_sz h0 ts m (length ts) block"
    and inh': "in_heap (snd ?st') (fst ?st')"
    and ex': "extends h0 (snd ?st')"
    and ln: "length (fst ?st) + length ts \<le> length (fst ?st')"
    by blast
  have st: "foldl ?inner ([], h0) [0..<Suc m] = ?st'"
    by simp
  from ds bs have "data_spec world_sz h0 ts (Suc m) (data @ block)"
    by (rule data_spec_Suc)
  moreover from fv' fv have "flat_values (snd ?st') (fst ?st') = data @ block"
    by simp
  moreover from ln have "ts \<noteq> [] \<longrightarrow> fst ?st' \<noteq> []"
    by auto
  ultimately show ?case
    unfolding st using inh' ex' by blast
qed

lemma read_overwrite_same:
  "valid h t \<Longrightarrow> length vs = numel t \<Longrightarrow> read (overwrite h t vs) t = vs"
  by (simp add: valid_def read_def overwrite_def)

lemma valid_overwrite:
  "valid h t \<Longrightarrow> length vs = numel t \<Longrightarrow> valid h t' \<Longrightarrow> valid (overwrite h t vs) t'"
  by (auto simp: valid_def overwrite_def nth_list_update)

lemma ceil_div_dvd: "0 < world_sz \<Longrightarrow> n mod world_sz = 0 \<Longrightarrow> ceil_div n world_sz = n div world_sz"
proof -
  assume w: "0 < world_sz" and "n mod world_sz = 0"
  then obtain q where n: "n = world_sz * q" by (auto simp: mod_eq_0_iff_dvd)
  from w have "(world_sz - 1 + q * world_sz) div world_sz = q + (world_sz - 1) div world_sz"
    by (intro div_mult_self1) simp
  moreover from w have "world_sz * q + world_sz - 1 = world_sz - 1 + q * world_sz"
    by (simp add: ac_simps)
  ultimately have "(world_sz * q + world_sz - 1) div world_sz = q"
    using w by simp
  with n w show ?thesis by (simp add: ceil_div_def)
qed

lemma valid_view_flat [simp]: "valid h (view_flat t) = valid h t"
  by (simp add: valid_def view_flat_def)

lemma valid_alloc_new: "valid (snd (alloc d vs h)) (fst (alloc d vs h))"
  by (simp add: valid_def alloc_def)

lemma numel_alloc_new [simp]: "numel (fst (alloc d vs h)) = length vs"
  by (simp add: alloc_def)

lemma dtype_alloc_new [simp]: "dtype (fst (alloc d vs h)) = d"
  by (simp add: alloc_def)

lemma data_spec_fast:
  assumes w: "0 < world_sz" and m: "numel t mod world_sz = 0" and v: "valid h t"
  shows "data_spec world_sz h [t] world_sz (read h t)"
proof -
  have s: "shard_size world_sz [t] = numel t div world_sz"
    using w m by (simp add: shard_size_def offset_of_def ceil_div_dvd)
  from m have "world_sz * (numel t div world_sz) = numel t" by auto
  with s v have "length (read h t) = world_sz * shard_size world_sz [t]"
    by (simp add: length_read)
  with s w m show ?thesis
    by (simp add: data_spec_def ceil_div_dvd)
qed

lemma dtype_partition:
  "rank < world_sz \<Longrightarrow> dtype (partition_lst world_sz t ! rank) = dtype t"
  by (simp add: partition_lst_def Let_def slice_def view_flat_def)

lemma append_partition_dtype:
  assumes "list_all (\<lambda>t. dtype t = d) (fst st)" and "dtype (parts ! i ! rank) = d"
  shows "list_all (\<lambda>t. dtype t = d) (fst (append_partition parts padded rank st i))"
  using assms by (simp add: append_partition_def Let_def torch_empty_def)

lemma inner_loop_dtype:
  assumes r: "rank < world_sz" and ts: "list_all (\<lambda>t. dtype t = d) ts"
    and st: "list_all (\<lambda>t. dtype t = d) (fst st)" and k: "k \<le> length ts"
  shows "list_all (\<lambda>t. dtype t = d)
           (fst (foldl (append_partition (map (partition_lst world_sz) ts) padded rank) st
                   [0..<k]))"
  using k
proof (induction k)
  case 0
  with st show ?case by simp
next
  case (Suc k)
  then have k: "k < length ts" by simp
  with ts have "dtype (ts ! k) = d" by (simp add: list_all_length)
  with k r have "dtype (map (partition_lst world_sz) ts ! k ! rank) = d"
    by (simp add: dtype_partition)
  with Suc.IH k show ?case
    by (simp add: append_partition_dtype)
qed

lemma interleave_dtype:
  assumes ts: "list_all (\<lambda>t. dtype t = d) ts" and m: "m \<le> world_sz"
  shows "list_all (\<lambda>t. dtype t = d)
           (fst (foldl (\<lambda>st rank. foldl (append_partition (map (partition_lst world_sz) ts)
                     padded rank) st [0..<length ts])
                   ([], h) [0..<m]))"
  using m
proof (induction m)
  case 0
  show ?case by simp
next
  case (Suc m)
  then have m: "m < world_sz" by simp
  with Suc.IH ts show ?case
    by (simp add: inner_loop_dtype)
qed

lemma cat_dtype_same:
  "ts \<noteq> [] \<Longrightarrow> list_all (\<lambda>t. dtype t = Floating fl) ts \<Longrightarrow> cat_dtype ts = Floating fl"
  by (cases ts) (simp_all add: cat_dtype_def)

lemma div_inplace_floating:
  "dtype t = Floating fl \<Longrightarrow>
     div_inplace t w h = Inr (overwrite h t (map (\<lambda>x. fl (x / w)) (read h t)))"
  by (simp add: div_inplace_def)

lemma flat_buffer_spec:
  assumes w: "0 < world_sz" and ne: "ts \<noteq> []" and val: "list_all (valid h) ts"
    and dt: "list_all (\<lambda>t. dtype t = Floating fl) ts"
  shows "\<exists>flat h' data. flat_buffer world_sz ts h = Inr (flat, h')
          \<and> valid h' flat \<and> numel flat = world_sz * shard_size world_sz ts
          \<and> dtype flat = Floating fl
          \<and> read h' flat = map (\<lambda>x. fl (x / real world_sz)) data
          \<and> data_spec world_sz h ts world_sz data"
proof (cases "length ts = 1 \<and> numel (ts ! 0) mod world_sz = 0")
  case True
  then obtain t where ts: "ts = [t]" and m: "numel t mod world_sz = 0"
    by (cases ts) auto
  from val ts have v: "valid h t" by simp
  from dt ts have d: "dtype (view_flat t) = Floating fl" by (simp add: view_flat_def)
  let ?flat = "view_flat t"
  let ?h' = "overwrite h ?flat (map (\<lambda>x. fl (x / real world_sz)) (read h ?flat))"
  have fb: "flat_buffer world_sz ts h = Inr (?flat, ?h')"
    using w ts m by (simp add: flat_buffer_def div_inplace_floating [OF d])
  have l: "length (map (\<lambda>x. fl (x / real world_sz)) (read h ?flat)) = numel ?flat"
    using v by (simp add: length_read)
  have "valid ?h' ?flat"
    using v l by (intro valid_overwrite) simp_all
  moreover have "read ?h' ?flat = map (\<lambda>x. fl (x / real world_sz)) (read h t)"
    using v l by (subst read_overwrite_same) simp_all
  moreover have "numel ?flat = world_sz * shard_size world_sz ts"
    using data_spec_fast [OF w m v] v ts by (simp add: data_spec_def length_read)
  moreover have "data_spec world_sz h ts world_sz (read h t)"
    using data_spec_fast [OF w m v] ts by simp
  ultimately show ?thesis using fb d by blast
next
  case False
  let ?il = "interleave (map (partition_lst world_sz) ts)
               (map (\<lambda>t. ceil_div (numel t) world_sz) ts) world_sz (length ts) h"
  from outer_loop [OF val le_refl, of world_sz] w ne obtain data where
    fv: "flat_values (snd ?il) (fst ?il) = data"
    and ds: "data_spec world_sz h ts world_sz data"
    and nonempty: "fst ?il \<noteq> []"
    unfolding interleave_def by blast
  have "list_all (\<lambda>t. dtype t = Floating fl) (fst ?il)"
    unfolding interleave_def using dt le_refl by (rule interleave_dtype)
  with nonempty have cd: "cat_dtype (fst ?il) = Floating fl"
    by (rule cat_dtype_same)
  let ?flat = "fst (alloc (Floating fl) data (snd ?il))"
  let ?h1 = "snd (alloc (Floating fl) data (snd ?il))"
  let ?h' = "overwrite ?h1 ?flat (map (\<lambda>x. fl (x / real world_sz)) (read ?h1 ?flat))"
  have cat: "torch_cat (fst ?il) (snd ?il) = Inr (?flat, ?h1)"
    using nonempty fv cd by (simp add: torch_cat_def flat_values_def)
  have d: "dtype ?flat = Floating fl" by simp
  have fb: "flat_buffer world_sz ts h = Inr (?flat, ?h')"
    using w False cat by (auto simp: flat_buffer_def Let_def split_def div_inplace_floating [OF d])
  have v1: "valid ?h1 ?flat" by (rule valid_alloc_new)
  have l: "length (map (\<lambda>x. fl (x / real world_sz)) (read ?h1 ?flat)) = numel ?flat"
    by simp
  have "valid ?h' ?flat"
    using v1 l v1 by (rule valid_overwrite)
  moreover have "read ?h' ?flat = map (\<lambda>x. fl (x / real world_sz)) data"
    using v1 l by (subst read_overwrite_same) simp_all
  moreover have "numel ?flat = world_sz * shard_size world_sz ts"
    using ds by (simp add: data_spec_def)
  ultimately show ?thesis using fb ds d by blast
qed

lemma read_overwrite_sub:
  assumes "valid h t" and "length vs = numel t" and "a + l \<le> numel t"
  shows "read (overwrite h t vs) (t\<lparr>off := off t + a, numel := l\<rparr>) = take l (drop a vs)"
  using assms by (simp add: valid_def read_def overwrite_def)

lemma torch_chunk_even:
  assumes w: "0 < world_sz" and n: "numel flat = world_sz * S"
  shows "torch_chunk flat world_sz
           = Inr (map (\<lambda>r. flat\<lparr>off := off flat + r * S, numel := S\<rparr>) [0..<world_sz])"
proof (cases "S = 0")
  case True
  with w n have "torch_chunk flat world_sz = Inr (replicate world_sz (slice flat 0 0))"
    by (simp add: torch_chunk_def)
  moreover have "map (\<lambda>r. flat\<lparr>off := off flat + r * S, numel := S\<rparr>) [0..<world_sz]
      = replicate world_sz (slice flat 0 0)"
    using True by (simp add: slice_def map_replicate_const)
  ultimately show ?thesis by simp
next
  case False
  then have S: "0 < S" by simp
  have "ceil_div (world_sz * S) world_sz = (world_sz * S) div world_sz"
    using w by (intro ceil_div_dvd) simp_all
  with w have split: "(numel flat + world_sz - 1) div world_sz = S"
    by (simp add: ceil_div_def n)
  have "ceil_div (world_sz * S) S = (world_sz * S) div S"
    using S by (intro ceil_div_dvd) simp_all
  with S have count: "(numel flat + S - 1) div S = world_sz"
    by (simp add: ceil_div_def n)
  have "slice flat (i * S) (i * S + S) = flat\<lparr>off := off flat + i * S, numel := S\<rparr>"
    if "i < world_sz" for i
  proof -
    from that have "Suc i \<le> world_sz" by simp
    then have "Suc i * S \<le> world_sz * S" by (rule mult_le_mono1)
    with that show ?thesis by (simp add: slice_def n min_def)
  qed
  then have "map (\<lambda>i. slice flat (i * S) (i * S + S)) [0..<world_sz]
      = map (\<lambda>r. flat\<lparr>off := off flat + r * S, numel := S\<rparr>) [0..<world_sz]"
    by simp
  with w S split count show ?thesis
    by (simp add: torch_chunk_def Let_def)
qed

lemma gather_map:
  "(\<And>x. x \<in> set xs \<Longrightarrow> f x = Inr (g x)) \<Longrightarrow> gather (map f xs) = Inr (map g xs)"
  by (induction xs) simp_all

lemma reduce_scatter_fn_spec:
  assumes len: "\<And>x. x \<in> set inputs \<Longrightarrow> length x = S * length inputs"
    and r: "rank < length inputs"
  shows "reduce_scatter_fn d inputs rank S
           = Inr (map (\<lambda>x. dtype_sum d (map (\<lambda>inp. inp ! (rank * S + x)) inputs)) [0..<S])"
proof -
  from r have "Suc rank \<le> length inputs" by simp
  then have "S * Suc rank \<le> S * length inputs" by (rule mult_le_mono2)
  then have le: "rank * S + S \<le> S * length inputs" by (simp add: ac_simps)
  have "take S (drop (rank * S) (sum_reduce d inputs (S * length inputs)))
      = map (\<lambda>j. dtype_sum d (map (\<lambda>x. x ! j) inputs)) [rank * S..<rank * S + S]"
    using le by (simp add: sum_reduce_def take_map drop_map take_upt)
  also have "\<dots> = map (\<lambda>j. dtype_sum d (map (\<lambda>x. x ! j) inputs))
                      (map (\<lambda>x. x + rank * S) [0..<S])"
    by (simp only: map_add_upt add.commute)
  also have "\<dots> = map (\<lambda>x. dtype_sum d (map (\<lambda>inp. inp ! (rank * S + x)) inputs)) [0..<S]"
    by (simp add: add.commute)
  finally show ?thesis
    using len by (simp add: reduce_scatter_fn_def list_all_iff)
qed

lemma offset_plus_partition_le:
  assumes "i < length ts"
  shows "offset_of world_sz ts i + partition_length (numel (ts ! i)) world_sz rank
           \<le> shard_size world_sz ts"
proof -
  from assms have "offset_of world_sz ts (Suc i)
      = offset_of world_sz ts i + ceil_div (numel (ts ! i)) world_sz"
    by (rule offset_of_Suc)
  moreover from assms have "offset_of world_sz ts (Suc i) \<le> shard_size world_sz ts"
    unfolding shard_size_def by (intro offset_of_mono) simp
  ultimately show ?thesis
    using partition_length_le [of "numel (ts ! i)" world_sz rank] by linarith
qed

lemma collect_outputs_spec:
  assumes r: "rank < world_sz" and n: "numel out = shard_size world_sz ts"
    and k: "k \<le> length ts"
  shows "collect_outputs out (map (partition_lst world_sz) ts)
           (map (\<lambda>t. ceil_div (numel t) world_sz) ts) rank (offset_of world_sz ts k)
           [k..<length ts]
         = Inr (map (\<lambda>i. out\<lparr>off := off out + offset_of world_sz ts i,
                               numel := partition_length (numel (ts ! i)) world_sz rank\<rparr>)
                  [k..<length ts])"
  using k
proof (induction k rule: inc_induct)
  case base
  show ?case by simp
next
  case (step k)
  from step.hyps have k: "k < length ts" by simp
  have nm: "numel (partition_lst world_sz (ts ! k) ! rank)
      = partition_length (numel (ts ! k)) world_sz rank"
    using r by (rule numel_partition)
  have fits: "offset_of world_sz ts k + partition_length (numel (ts ! k)) world_sz rank
      \<le> numel out"
    unfolding n using k by (rule offset_plus_partition_le)
  have nxt: "offset_of world_sz ts k + ceil_div (numel (ts ! k)) world_sz
      = offset_of world_sz ts (Suc k)"
    using k by (simp add: offset_of_Suc)
  show ?case
    using k fits step.IH
    by (simp add: upt_conv_Cons nm nxt narrow_def del: upt_Suc)
qed

lemma offset_of_cong:
  "map numel ts = map numel ts' \<Longrightarrow> offset_of world_sz ts k = offset_of world_sz ts' k"
proof -
  assume e: "map numel ts = map numel ts'"
  have "map (\<lambda>t. ceil_div (numel t) world_sz) ts = map (\<lambda>n. ceil_div n world_sz) (map numel ts)"
    by simp
  also have "\<dots> = map (\<lambda>n. ceil_div n world_sz) (map numel ts')"
    by (simp only: e)
  also have "\<dots> = map (\<lambda>t. ceil_div (numel t) world_sz) ts'"
    by simp
  finally show ?thesis by (simp only: offset_of_def)
qed

lemma shard_size_cong:
  "map numel ts = map numel ts' \<Longrightarrow> shard_size world_sz ts = shard_size world_sz ts'"
  using offset_of_cong [of ts ts' world_sz "length ts"] map_eq_imp_length_eq [of numel ts numel ts']
  by (simp add: shard_size_def)

lemma index_in_data:
  assumes "rank < world_sz" and "i < length ts"
    and "j < partition_length (numel (ts ! i)) world_sz rank"
  shows "rank * shard_size world_sz ts + offset_of world_sz ts i + j
           < world_sz * shard_size world_sz ts"
proof -
  from assms(2,3) have x: "offset_of world_sz ts i + j < shard_size world_sz ts"
    by (rule segment_in_shard)
  from assms(1) have "Suc rank \<le> world_sz" by simp
  then have "Suc rank * shard_size world_sz ts \<le> world_sz * shard_size world_sz ts"
    by (rule mult_le_mono1)
  with x show ?thesis by simp
qed

lemma contribution_spec:
  assumes w: "0 < world_sz" and ne: "ts \<noteq> []" and val: "list_all (valid h) ts"
    and dt: "list_all (\<lambda>t. dtype t = Floating fl) ts"
  shows "\<exists>c. contribution world_sz (h, ts) = Inr c
          \<and> length c = world_sz * shard_size world_sz ts
          \<and> (\<forall>rank<world_sz. \<forall>i<length ts.
                \<forall>j<partition_length (numel (ts ! i)) world_sz rank.
                  c ! (rank * shard_size world_sz ts + offset_of world_sz ts i + j)
                    = fl (read h (ts ! i) ! (rank * ceil_div (numel (ts ! i)) world_sz + j)
                        / real world_sz))"
proof -
  from flat_buffer_spec [OF w ne val dt] obtain flat h' data where
    fb: "flat_buffer world_sz ts h = Inr (flat, h')"
    and rd: "read h' flat = map (\<lambda>x. fl (x / real world_sz)) data"
    and ds: "data_spec world_sz h ts world_sz data"
    by blast
  from ds have ld: "length data = world_sz * shard_size world_sz ts"
    by (simp add: data_spec_def)
  have c: "contribution world_sz (h, ts) = Inr (map (\<lambda>x. fl (x / real world_sz)) data)"
    using fb rd by (simp add: contribution_def)
  have "map (\<lambda>x. fl (x / real world_sz)) data
          ! (rank * shard_size world_sz ts + offset_of world_sz ts i + j)
      = fl (read h (ts ! i) ! (rank * ceil_div (numel (ts ! i)) world_sz + j) / real world_sz)"
    if "rank < world_sz" and "i < length ts"
      and "j < partition_length (numel (ts ! i)) world_sz rank" for rank i j
  proof -
    from that have "rank * shard_size world_sz ts + offset_of world_sz ts i + j < length data"
      unfolding ld by (rule index_in_data)
    then have "map (\<lambda>x. fl (x / real world_sz)) data
          ! (rank * shard_size world_sz ts + offset_of world_sz ts i + j)
        = fl (data ! (rank * shard_size world_sz ts + offset_of world_sz ts i + j)
               / real world_sz)"
      by (rule nth_map)
    with ds that show ?thesis by (simp add: data_spec_def)
  qed
  with c ld show ?thesis by auto
qed

lemma well_formed_world_rank:
  assumes "well_formed_world fl world_sz this_rank world" and "r' < world_sz"
  shows "list_all (valid (fst (world r'))) (snd (world r'))"
    and "list_all (\<lambda>t. dtype t = Floating fl) (snd (world r'))"
    and "map numel (snd (world r')) = map numel (snd (world this_rank))"
  using assms by (simp_all add: well_formed_world_def list_all_length)

lemma reduce_scatter_coalesced_structure:
  assumes wf: "well_formed_world fl world_sz this_rank world" and r: "this_rank < world_sz"
    and ne: "snd (world this_rank) \<noteq> []"
  shows "\<exists>flat h1 reduced.
      flat_buffer world_sz (snd (world this_rank)) (fst (world this_rank)) = Inr (flat, h1)
    \<and> valid h1 flat
    \<and> numel flat = world_sz * shard_size world_sz (snd (world this_rank))
    \<and> length reduced = shard_size world_sz (snd (world this_rank))
    \<and> (\<forall>i<length (snd (world this_rank)).
         \<forall>j<partition_length (numel (snd (world this_rank) ! i)) world_sz this_rank.
           reduced ! (offset_of world_sz (snd (world this_rank)) i + j)
             = reduced_element fl world_sz world i
                 (this_rank * ceil_div (numel (snd (world this_rank) ! i)) world_sz + j))
    \<and> reduce_scatter_coalesced this_rank world_sz world
        = Inr (map (\<lambda>i. flat\<lparr>off := off flat
                                   + this_rank * shard_size world_sz (snd (world this_rank))
                                   + offset_of world_sz (snd (world this_rank)) i,
                              numel := partition_length (numel (snd (world this_rank) ! i))
                                         world_sz this_rank\<rparr>)
                 [0..<length (snd (world this_rank))],
               overwrite h1
                 (flat\<lparr>off := off flat + this_rank * shard_size world_sz (snd (world this_rank)),
                       numel := shard_size world_sz (snd (world this_rank))\<rparr>)
                 reduced)"
proof -
  let ?ts = "snd (world this_rank)"
  let ?h = "fst (world this_rank)"
  let ?S = "shard_size world_sz ?ts"
  let ?g = "\<lambda>r'. projr (contribution world_sz (world r'))"
  from r have w: "0 < world_sz" by simp
  have contrib: "contribution world_sz (world r') = Inr (?g r')
      \<and> length (?g r') = ?S * world_sz
      \<and> (\<forall>i<length ?ts. \<forall>j<partition_length (numel (?ts ! i)) world_sz this_rank.
            ?g r' ! (this_rank * ?S + (offset_of world_sz ?ts i + j))
              = fl (read (fst (world r')) (snd (world r') ! i)
                  ! (this_rank * ceil_div (numel (?ts ! i)) world_sz + j) / real world_sz))"
    if r': "r' < world_sz" for r'
  proof -
    let ?ts' = "snd (world r')"
    from well_formed_world_rank [OF wf r']
    have val: "list_all (valid (fst (world r'))) ?ts'"
      and dt: "list_all (\<lambda>t. dtype t = Floating fl) ?ts'"
      and nm: "map numel ?ts' = map numel ?ts"
      by simp_all
    from nm have len: "length ?ts' = length ?ts"
      by (rule map_eq_imp_length_eq)
    with ne have ne': "?ts' \<noteq> []" by auto
    from nm have numel_eq: "numel (?ts' ! i) = numel (?ts ! i)" if "i < length ?ts" for i
      using that len nth_map [of i ?ts' numel] nth_map [of i ?ts numel] by simp
    from contribution_spec [OF w ne' val dt] obtain c where
      c: "contribution world_sz (fst (world r'), ?ts') = Inr c"
      and lc: "length c = world_sz * shard_size world_sz ?ts'"
      and nth: "\<forall>rank<world_sz. \<forall>i<length ?ts'.
                \<forall>j<partition_length (numel (?ts' ! i)) world_sz rank.
                  c ! (rank * shard_size world_sz ?ts' + offset_of world_sz ?ts' i + j)
                    = fl (read (fst (world r')) (?ts' ! i)
                        ! (rank * ceil_div (numel (?ts' ! i)) world_sz + j) / real world_sz)"
      by blast
    have S: "shard_size world_sz ?ts' = ?S" using nm by (rule shard_size_cong)
    have O: "offset_of world_sz ?ts' i = offset_of world_sz ?ts i" for i
      using nm by (rule offset_of_cong)
    from c have gc: "?g r' = c"
      by simp
    from c have g: "contribution world_sz (world r') = Inr (?g r')"
      by simp
    have "?g r' ! (this_rank * ?S + (offset_of world_sz ?ts i + j))
              = fl (read (fst (world r')) (?ts' ! i)
                  ! (this_rank * ceil_div (numel (?ts ! i)) world_sz + j) / real world_sz)"
      if i: "i < length ?ts" and j: "j < partition_length (numel (?ts ! i)) world_sz this_rank"
      for i j
    proof -
      from i len have i': "i < length ?ts'" by simp
      from j have j': "j < partition_length (numel (?ts' ! i)) world_sz this_rank"
        by (simp only: numel_eq [OF i])
      from nth r i' j'
      have "c ! (this_rank * shard_size world_sz ?ts' + offset_of world_sz ?ts' i + j)
                    = fl (read (fst (world r')) (?ts' ! i)
                        ! (this_rank * ceil_div (numel (?ts' ! i)) world_sz + j)
                        / real world_sz)"
        by blast
      then show ?thesis
        by (simp only: gc S O numel_eq [OF i] add.assoc)
    qed
    moreover from lc have "length (?g r') = ?S * world_sz"
      by (simp only: gc S mult.commute)
    ultimately show ?thesis using g by blast
  qed
  from flat_buffer_spec [OF w ne well_formed_world_rank(1,2) [OF wf r]] obtain flat h1 where
    fb: "flat_buffer world_sz ?ts ?h = Inr (flat, h1)"
    and vf: "valid h1 flat" and nf: "numel flat = world_sz * ?S"
    and df: "dtype flat = Floating fl"
    by blast
  let ?out = "flat\<lparr>off := off flat + this_rank * ?S, numel := ?S\<rparr>"
  let ?inputs = "map ?g [0..<world_sz]"
  let ?reduced = "map (\<lambda>x. dtype_sum (Floating fl)
                         (map (\<lambda>inp. inp ! (this_rank * ?S + x)) ?inputs)) [0..<?S]"
  have chunks: "torch_chunk flat world_sz
      = Inr (map (\<lambda>r. flat\<lparr>off := off flat + r * ?S, numel := ?S\<rparr>) [0..<world_sz])"
    using w nf by (rule torch_chunk_even)
  have gath: "gather (map (\<lambda>r. contribution world_sz (world r)) [0..<world_sz]) = Inr ?inputs"
    using contrib by (intro gather_map) simp
  have red: "reduce_scatter_fn (Floating fl) ?inputs this_rank ?S = Inr ?reduced"
    using contrib r by (intro reduce_scatter_fn_spec) auto
  have outs: "collect_outputs ?out (map (partition_lst world_sz) ?ts)
           (map (\<lambda>t. ceil_div (numel t) world_sz) ?ts) this_rank 0 [0..<length ?ts]
         = Inr (map (\<lambda>i. ?out\<lparr>off := off ?out + offset_of world_sz ?ts i,
                               numel := partition_length (numel (?ts ! i)) world_sz this_rank\<rparr>)
                  [0..<length ?ts])"
    using collect_outputs_spec [OF r, of ?out ?ts 0] by simp
  have result: "reduce_scatter_coalesced this_rank world_sz world
        = Inr (map (\<lambda>i. flat\<lparr>off := off flat + this_rank * ?S + offset_of world_sz ?ts i,
                              numel := partition_length (numel (?ts ! i)) world_sz this_rank\<rparr>)
                 [0..<length ?ts],
               overwrite h1 ?out ?reduced)"
    unfolding reduce_scatter_coalesced_def Let_def fb
    using r chunks gath red outs df by simp
  have nth_red: "?reduced ! (offset_of world_sz ?ts i + j)
             = reduced_element fl world_sz world i
                 (this_rank * ceil_div (numel (?ts ! i)) world_sz + j)"
    if i: "i < length ?ts" and j: "j < partition_length (numel (?ts ! i)) world_sz this_rank"
    for i j
  proof -
    from i j have x: "offset_of world_sz ?ts i + j < ?S" by (rule segment_in_shard)
    then have "?reduced ! (offset_of world_sz ?ts i + j)
        = dtype_sum (Floating fl)
            (map (\<lambda>inp. inp ! (this_rank * ?S + (offset_of world_sz ?ts i + j))) ?inputs)"
      by simp
    also have "map (\<lambda>inp. inp ! (this_rank * ?S + (offset_of world_sz ?ts i + j))) ?inputs
        = map (\<lambda>r'. ?g r' ! (this_rank * ?S + (offset_of world_sz ?ts i + j))) [0..<world_sz]"
      by (simp add: comp_def)
    also have "\<dots> = map (\<lambda>r'. fl (read (fst (world r')) (snd (world r') ! i)
                    ! (this_rank * ceil_div (numel (?ts ! i)) world_sz + j) / real world_sz))
                  [0..<world_sz]"
      using contrib i j by (intro map_cong) auto
    finally show ?thesis by (simp only: reduced_element_def)
  qed
  have "length ?reduced = ?S" by simp
  with fb vf nf result nth_red show ?thesis
    by (intro exI [of _ flat] exI [of _ h1] exI [of _ ?reduced]) blast
qed

section \<open>What the output views hold after the collective\<close>

lemma read_overwrite_super:
  assumes "valid h t" and "a + l \<le> numel t" and "length vs = l"
  shows "read (overwrite h (t\<lparr>off := off t + a, numel := l\<rparr>) vs) t
           = take a (read h t) @ vs @ drop (a + l) (read h t)"
proof -
  from assms(1,2) have "a \<le> length (bufs h ! buf t) - off t"
    unfolding valid_def by linarith
  then have "min (length (bufs h ! buf t) - off t) a = a"
    by simp
  with assms show ?thesis
    by (simp add: valid_def read_def overwrite_def drop_take add.commute add.left_commute)
qed

lemma sum_list_divide:
  "(\<Sum>x\<leftarrow>xs. f x / (c::real)) = (\<Sum>x\<leftarrow>xs. f x) / c"
  by (induction xs) (simp_all add: add_divide_distrib)

lemma reduce_scatter_coalesced_outputs:
  assumes wf: "well_formed_world fl world_sz this_rank world" and r: "this_rank < world_sz"
    and ne: "snd (world this_rank) \<noteq> []"
  shows "\<exists>outs h'. reduce_scatter_coalesced this_rank world_sz world = Inr (outs, h')
    \<and> length outs = length (snd (world this_rank))
    \<and> (\<forall>i<length (snd (world this_rank)).
          numel (outs ! i)
            = partition_length (numel (snd (world this_rank) ! i)) world_sz this_rank
        \<and> read h' (outs ! i)
            = map (\<lambda>j. reduced_element fl world_sz world i
                  (this_rank * ceil_div (numel (snd (world this_rank) ! i)) world_sz + j))
                [0..<partition_length (numel (snd (world this_rank) ! i)) world_sz this_rank])"
proof -
  let ?ts = "snd (world this_rank)"
  let ?S = "shard_size world_sz ?ts"
  from reduce_scatter_coalesced_structure [OF wf r ne] obtain flat h1 reduced where
    vf: "valid h1 flat" and nf: "numel flat = world_sz * ?S"
    and lr: "length reduced = ?S"
    and nth: "\<forall>i<length ?ts. \<forall>j<partition_length (numel (?ts ! i)) world_sz this_rank.
           reduced ! (offset_of world_sz ?ts i + j)
             = reduced_element fl world_sz world i
                 (this_rank * ceil_div (numel (?ts ! i)) world_sz + j)"
    and res: "reduce_scatter_coalesced this_rank world_sz world
        = Inr (map (\<lambda>i. flat\<lparr>off := off flat + this_rank * ?S + offset_of world_sz ?ts i,
                              numel := partition_length (numel (?ts ! i)) world_sz this_rank\<rparr>)
                 [0..<length ?ts],
               overwrite h1 (flat\<lparr>off := off flat + this_rank * ?S, numel := ?S\<rparr>) reduced)"
    by blast
  let ?out = "flat\<lparr>off := off flat + this_rank * ?S, numel := ?S\<rparr>"
  let ?outs = "map (\<lambda>i. flat\<lparr>off := off flat + this_rank * ?S + offset_of world_sz ?ts i,
                              numel := partition_length (numel (?ts ! i)) world_sz this_rank\<rparr>)
                 [0..<length ?ts]"
  let ?h' = "overwrite h1 ?out reduced"
  from r have "Suc this_rank \<le> world_sz" by simp
  then have "Suc this_rank * ?S \<le> world_sz * ?S" by (rule mult_le_mono1)
  with vf nf have vo: "valid h1 ?out"
    by (simp add: valid_def)
  have vals: "read ?h' (?outs ! i)
      = map (\<lambda>j. reduced_element fl world_sz world i
                  (this_rank * ceil_div (numel (?ts ! i)) world_sz + j))
          [0..<partition_length (numel (?ts ! i)) world_sz this_rank]"
    if i: "i < length ?ts" for i
  proof -
    let ?p = "partition_length (numel (?ts ! i)) world_sz this_rank"
    from i have fits: "offset_of world_sz ?ts i + ?p \<le> ?S"
      by (rule offset_plus_partition_le)
    have "?outs ! i = ?out\<lparr>off := off ?out + offset_of world_sz ?ts i, numel := ?p\<rparr>"
      using i by simp
    moreover have "read ?h' (?out\<lparr>off := off ?out + offset_of world_sz ?ts i, numel := ?p\<rparr>)
        = take ?p (drop (offset_of world_sz ?ts i) reduced)"
      using vo lr fits by (intro read_overwrite_sub) simp_all
    ultimately have rd: "read ?h' (?outs ! i) = take ?p (drop (offset_of world_sz ?ts i) reduced)"
      by simp
    show ?thesis
    proof (rule nth_equalityI)
      show "length (read ?h' (?outs ! i)) = length (map (\<lambda>j. reduced_element fl world_sz world i
                  (this_rank * ceil_div (numel (?ts ! i)) world_sz + j))
          [0..<?p])"
        unfolding rd using fits lr by simp
    next
      fix j assume "j < length (read ?h' (?outs ! i))"
      then have j: "j < ?p" unfolding rd by simp
      with fits lr have "read ?h' (?outs ! i) ! j = reduced ! (offset_of world_sz ?ts i + j)"
        unfolding rd by simp
      with nth i j show "read ?h' (?outs ! i) ! j = map (\<lambda>j. reduced_element fl world_sz world i
                  (this_rank * ceil_div (numel (?ts ! i)) world_sz + j))
          [0..<?p] ! j"
        by simp
    qed
  qed
  have "numel (?outs ! i) = partition_length (numel (?ts ! i)) world_sz this_rank"
    if "i < length ?ts" for i
    using that by simp
  with vals res show ?thesis
    by (intro exI [of _ ?outs] exI [of _ ?h']) simp
qed

section \<open>Coalesced reduce-scatter: the lengths of the outputs\<close>

lemma example_world_well_formed: "well_formed_world no_rounding 2 1 example_world"
  by (simp add: well_formed_world_def example_world_def example_heap_def valid_def
      numeral_2_eq_2)

lemma example_world_pair_well_formed: "well_formed_world fl 2 1 (example_world_pair fl)"
  by (simp add: well_formed_world_def example_world_pair_def example_heap_pair_def valid_def
      numeral_2_eq_2)

lemma example_world_even_well_formed: "well_formed_world no_rounding 2 1 example_world_even"
  by (simp add: well_formed_world_def example_world_even_def example_heap_even_def valid_def
      numeral_2_eq_2)

lemma example_world_single_well_formed:
  "well_formed_world no_rounding 1 0 example_world_single"
  by (simp add: well_formed_world_def example_world_single_def example_heap_def valid_def)

lemma example_world_tiny_well_formed:
  "well_formed_world (round_to_spacing float32_spacing) 2 0 example_world_tiny"
  by (simp add: well_formed_world_def example_world_tiny_def example_heap_tiny_def valid_def
      numeral_2_eq_2)

text \<open>
  C4. For every non-empty list of valid input buffers of a floating-point dtype, every
  world size and every rank below it (all ranks passing buffers of the same element
  counts), the call returns, and its \<open>i\<close>-th output has exactly
  \<open>partition_length (numel\<^sub>i) world_sz this_rank\<close> elements, that is
  \<open>min (ceil (numel\<^sub>i / world_sz))
  (max 0 (numel\<^sub>i - this_rank * ceil (numel\<^sub>i / world_sz)))\<close>: the view's element count and
  the number of values it holds are both this length, the short tail partition
  included.
\<close>

theorem output_has_partition_length:
  assumes "well_formed_world fl world_sz this_rank world" and "this_rank < world_sz"
    and "snd (world this_rank) \<noteq> []"
  shows "\<exists>outs h'. reduce_scatter_coalesced this_rank world_sz world = Inr (outs, h')
    \<and> length outs = length (snd (world this_rank))
    \<and> (\<forall>i<length (snd (world this_rank)).
          numel (outs ! i)
            = partition_length (numel (snd (world this_rank) ! i)) world_sz this_rank
        \<and> length (read h' (outs ! i))
            = partition_length (numel (snd (world this_rank) ! i)) world_sz this_rank)"
proof -
  from reduce_scatter_coalesced_outputs [OF assms] obtain outs h' where
    res: "reduce_scatter_coalesced this_rank world_sz world = Inr (outs, h')"
    and len: "length outs = length (snd (world this_rank))"
    and each: "\<forall>i<length (snd (world this_rank)).
          numel (outs ! i)
            = partition_length (numel (snd (world this_rank) ! i)) world_sz this_rank
        \<and> read h' (outs ! i)
            = map (\<lambda>j. reduced_element fl world_sz world i
                  (this_rank * ceil_div (numel (snd (world this_rank) ! i)) world_sz + j))
                [0..<partition_length (numel (snd (world this_rank) ! i)) world_sz this_rank]"
    by blast
  have "numel (outs ! i)
            = partition_length (numel (snd (world this_rank) ! i)) world_sz this_rank
        \<and> length (read h' (outs ! i))
            = partition_length (numel (snd (world this_rank) ! i)) world_sz this_rank"
    if "i < length (snd (world this_rank))" for i
    using each that by simp
  with res len show ?thesis by blast
qed

theorem output_has_partition_length_witness:
  "well_formed_world no_rounding 2 1 example_world \<and> (1::nat) < 2
     \<and> snd (example_world 1) \<noteq> []
     \<and> (\<exists>outs h'. reduce_scatter_coalesced 1 2 example_world = Inr (outs, h')
           \<and> length outs = 1 \<and> numel (outs ! 0) = 1 \<and> length (read h' (outs ! 0)) = 1)"
proof -
  have ne: "snd (example_world 1) \<noteq> []" and l: "length (snd (example_world 1)) = 1"
    and n: "numel (snd (example_world 1) ! 0) = 3"
    by (simp_all add: example_world_def)
  have p: "partition_length 3 2 1 = 1"
    by (simp add: partition_length_def ceil_div_def)
  from output_has_partition_length [OF example_world_well_formed _ ne]
  obtain outs h' where "reduce_scatter_coalesced 1 2 example_world = Inr (outs, h')"
    and "length outs = length (snd (example_world 1))"
    and "\<forall>i<length (snd (example_world 1)).
          numel (outs ! i) = partition_length (numel (snd (example_world 1) ! i)) 2 1
        \<and> length (read h' (outs ! i))
            = partition_length (numel (snd (example_world 1) ! i)) 2 1"
    by auto
  then have "reduce_scatter_coalesced 1 2 example_world = Inr (outs, h')
           \<and> length outs = 1 \<and> numel (outs ! 0) = 1 \<and> length (read h' (outs ! 0)) = 1"
    using l n p by simp
  with example_world_well_formed ne show ?thesis by auto
qed

section \<open>Coalesced reduce-scatter: the values of the outputs\<close>

lemma foldl_add_sum_list: "foldl (+) a xs = a + sum_list xs" for a :: real
  by (induction xs arbitrary: a) simp_all

lemma dtype_sum_exact:
  assumes "\<forall>x. fl x = x"
  shows "dtype_sum (Floating fl) xs = sum_list xs"
proof -
  from assms have "dtype_add (Floating fl) = (+)"
    by (intro ext) (simp add: dtype_add_def)
  then show ?thesis
    by (cases xs) (simp_all add: dtype_sum_def foldl_add_sum_list)
qed

lemma input_length:
  assumes "well_formed_world fl world_sz this_rank world" and "r' < world_sz"
    and "i < length (snd (world this_rank))"
  shows "length (read (fst (world r')) (snd (world r') ! i)) = numel (snd (world this_rank) ! i)"
proof -
  from well_formed_world_rank(3) [OF assms(1,2)]
  have m: "map numel (snd (world r')) = map numel (snd (world this_rank))" .
  then have "length (snd (world r')) = length (snd (world this_rank))"
    by (rule map_eq_imp_length_eq)
  with assms(3) have i: "i < length (snd (world r'))" by simp
  with well_formed_world_rank(1) [OF assms(1,2)]
  have "valid (fst (world r')) (snd (world r') ! i)"
    by (simp add: list_all_length)
  then have "length (read (fst (world r')) (snd (world r') ! i)) = numel (snd (world r') ! i)"
    by (rule length_read)
  also have "\<dots> = map numel (snd (world r')) ! i"
    using i by simp
  also have "\<dots> = numel (snd (world this_rank) ! i)"
    using assms(3) by (simp only: m nth_map)
  finally show ?thesis .
qed

lemma predivided_sum_nth:
  assumes "\<And>r'. r' < world_sz \<Longrightarrow> length (read (fst (world r')) (snd (world r') ! i)) = n"
    and "k < n"
  shows "predivided_sum fl (map (\<lambda>r'. read (fst (world r')) (snd (world r') ! i)) [0..<world_sz])
           n world_sz ! k
         = reduced_element fl world_sz world i k"
proof -
  have "map (\<lambda>x. x ! k)
          (map (map (\<lambda>x. fl (x / real world_sz)))
             (map (\<lambda>r'. read (fst (world r')) (snd (world r') ! i)) [0..<world_sz]))
      = map (\<lambda>r'. fl (read (fst (world r')) (snd (world r') ! i) ! k / real world_sz))
          [0..<world_sz]"
    using assms by (simp add: comp_def)
  moreover have "sum_reduce d ins n ! k = dtype_sum d (map (\<lambda>x. x ! k) ins)" for d ins
    using assms(2) by (simp add: sum_reduce_def)
  ultimately show ?thesis
    by (simp only: predivided_sum_def reduced_element_def)
qed

lemma partition_of_predivided_sum:
  assumes len: "\<And>r'. r' < world_sz \<Longrightarrow> length (read (fst (world r')) (snd (world r') ! i)) = n"
  shows "map (\<lambda>j. reduced_element fl world_sz world i (this_rank * ceil_div n world_sz + j))
           [0..<partition_length n world_sz this_rank]
         = rank_partition world_sz this_rank
             (predivided_sum fl
                (map (\<lambda>r'. read (fst (world r')) (snd (world r') ! i)) [0..<world_sz]) n world_sz)"
proof -
  let ?c = "ceil_div n world_sz"
  let ?p = "partition_length n world_sz this_rank"
  let ?s = "predivided_sum fl
                (map (\<lambda>r'. read (fst (world r')) (snd (world r') ! i)) [0..<world_sz]) n world_sz"
  have ls: "length ?s = n"
    by (simp add: predivided_sum_def sum_reduce_def)
  have rp: "rank_partition world_sz this_rank ?s = take ?c (drop (this_rank * ?c) ?s)"
    by (simp only: rank_partition_def ls)
  have lp: "length (take ?c (drop (this_rank * ?c) ?s)) = ?p"
    by (simp add: ls partition_length_def)
  have "map (\<lambda>j. reduced_element fl world_sz world i (this_rank * ?c + j)) [0..<?p]
        = take ?c (drop (this_rank * ?c) ?s)"
  proof (rule nth_equalityI)
    show "length (map (\<lambda>j. reduced_element fl world_sz world i (this_rank * ?c + j)) [0..<?p])
        = length (take ?c (drop (this_rank * ?c) ?s))"
      by (simp only: lp length_map length_upt diff_zero)
  next
    fix j assume "j < length (map (\<lambda>j. reduced_element fl world_sz world i
                                     (this_rank * ?c + j)) [0..<?p])"
    then have j: "j < ?p" by simp
    then have jc: "j < ?c" and jn: "this_rank * ?c + j < n"
      unfolding partition_length_def by linarith+
    have "take ?c (drop (this_rank * ?c) ?s) ! j = ?s ! (this_rank * ?c + j)"
      using jc jn ls by simp
    also have "\<dots> = reduced_element fl world_sz world i (this_rank * ?c + j)"
      using len jn by (rule predivided_sum_nth)
    finally show "map (\<lambda>j. reduced_element fl world_sz world i (this_rank * ?c + j)) [0..<?p] ! j
        = take ?c (drop (this_rank * ?c) ?s) ! j"
      using j by simp
  qed
  with rp show ?thesis by simp
qed

lemma predivided_sum_exact:
  assumes "\<forall>x. fl x = x" and "\<And>x. x \<in> set inputs \<Longrightarrow> length x = n"
  shows "predivided_sum fl inputs n world_sz = elementwise_average inputs n world_sz"
proof -
  have "dtype_sum (Floating fl) (map (\<lambda>x. x ! j) (map (map (\<lambda>x. fl (x / real world_sz))) inputs))
      = sum_list (map (\<lambda>x. x ! j) inputs) / real world_sz" if j: "j < n" for j
  proof -
    have "map (\<lambda>x. x ! j) (map (map (\<lambda>x. fl (x / real world_sz))) inputs)
        = map (\<lambda>x. x ! j / real world_sz) inputs"
      using assms j by (simp add: comp_def)
    then show ?thesis
      by (simp only: dtype_sum_exact [OF assms(1)] sum_list_divide)
  qed
  then show ?thesis
    by (simp add: predivided_sum_def sum_reduce_def elementwise_average_def)
qed

lemma flat_buffer_integral:
  assumes w: "0 < world_sz" and ne: "ts \<noteq> []"
    and dt: "list_all (\<lambda>t. dtype t = Integral) ts"
  shows "flat_buffer world_sz ts h = Inl RuntimeError"
proof (cases "length ts = 1 \<and> numel (ts ! 0) mod world_sz = 0")
  case True
  then obtain t where ts: "ts = [t]"
    by (cases ts) auto
  with dt have "dtype (view_flat t) = Integral" by (simp add: view_flat_def)
  with True w ts show ?thesis
    by (simp add: flat_buffer_def div_inplace_def)
next
  case False
  let ?il = "interleave (map (partition_lst world_sz) ts)
               (map (\<lambda>t. ceil_div (numel t) world_sz) ts) world_sz (length ts) h"
  have "list_all (\<lambda>t. dtype t = Integral) (fst ?il)"
    unfolding interleave_def using dt by (rule interleave_dtype) simp
  then have "filter is_floating (map dtype (fst ?il)) = []"
    by (auto simp: filter_empty_conv list_all_iff)
  then have c: "cat_dtype (fst ?il) = Integral"
    by (simp add: cat_dtype_def)
  show ?thesis
  proof (cases "fst ?il = []")
    case True
    with False w show ?thesis
      by (auto simp: flat_buffer_def Let_def torch_cat_def)
  next
    case ne': False
    have "div_inplace (fst (alloc Integral (concat (map (read (snd ?il)) (fst ?il))) (snd ?il)))
            (real world_sz)
            (snd (alloc Integral (concat (map (read (snd ?il)) (fst ?il))) (snd ?il)))
        = Inl RuntimeError"
      by (simp add: div_inplace_def alloc_def)
    with False w ne' c show ?thesis
      by (auto simp: flat_buffer_def Let_def torch_cat_def split_def)
  qed
qed

lemma reduce_scatter_coalesced_integral:
  assumes "this_rank < world_sz" and "snd (world this_rank) \<noteq> []"
    and "list_all (\<lambda>t. dtype t = Integral) (snd (world this_rank))"
  shows "reduce_scatter_coalesced this_rank world_sz world = Inl RuntimeError"
proof -
  from assms(1) have "0 < world_sz" by simp
  from flat_buffer_integral [OF this assms(2,3)] show ?thesis
    by (simp add: reduce_scatter_coalesced_def)
qed

lemma round_to_spacing_half: "q \<noteq> 0 \<Longrightarrow> round_to_spacing q (q / 2) = 0"
  by (simp add: round_to_spacing_def round_half_even_def)


text \<open>
  C1, as stated. The claim gives every output as this rank's partition of the sum of the
  inputs divided by the world size, for every list of buffers of one dtype. Two ranks
  whose buffer holds the smallest positive float32 number twice: the average is that
  number, but the code divides first, \<open>2\<^sup>-\<^sup>1\<^sup>4\<^sup>9 / 2\<close> rounds to \<open>0\<close>, and the
  output of rank 0 is \<open>[0]\<close>. Two ranks with a buffer of integers: \<^verbatim>\<open>div_\<close> (line
  159) raises, and there is no output.
\<close>

theorem average_not_exact_counterexample:
  "(\<exists>outs h'. reduce_scatter_coalesced 0 2 example_world_tiny = Inr (outs, h')
      \<and> read h' (outs ! 0) = [0])
   \<and> rank_partition 2 0
       (elementwise_average
          (map (\<lambda>r. read (fst (example_world_tiny r)) (snd (example_world_tiny r) ! 0)) [0..<2])
          2 2) = [float32_spacing]
   \<and> float32_spacing \<noteq> 0
   \<and> reduce_scatter_coalesced 0 2 example_world_integral = Inl RuntimeError"
proof -
  have ne: "snd (example_world_tiny 0) \<noteq> []" and l: "length (snd (example_world_tiny 0)) = 1"
    and n: "numel (snd (example_world_tiny 0) ! 0) = 2"
    by (simp_all add: example_world_tiny_def)
  have p: "partition_length 2 2 0 = 1"
    by (simp add: partition_length_def ceil_div_def)
  have q: "float32_spacing \<noteq> 0"
    by (simp add: float32_spacing_def)
  have e: "reduced_element (round_to_spacing float32_spacing) 2 example_world_tiny 0 0 = 0"
    by (simp add: reduced_element_def example_world_tiny_def example_heap_tiny_def read_def
        numeral_2_eq_2 dtype_sum_def dtype_add_def round_to_spacing_half [OF q])
      (simp add: round_to_spacing_def round_half_even_def)
  from reduce_scatter_coalesced_outputs [OF example_world_tiny_well_formed _ ne]
  obtain outs h' where "reduce_scatter_coalesced 0 2 example_world_tiny = Inr (outs, h')"
    and "\<forall>i<length (snd (example_world_tiny 0)).
          numel (outs ! i) = partition_length (numel (snd (example_world_tiny 0) ! i)) 2 0
        \<and> read h' (outs ! i)
            = map (\<lambda>j. reduced_element (round_to_spacing float32_spacing) 2 example_world_tiny i
                  (0 * ceil_div (numel (snd (example_world_tiny 0) ! i)) 2 + j))
                [0..<partition_length (numel (snd (example_world_tiny 0) ! i)) 2 0]"
    by auto
  then have a: "\<exists>outs h'. reduce_scatter_coalesced 0 2 example_world_tiny = Inr (outs, h')
      \<and> read h' (outs ! 0) = [0]"
    using l n p e by simp
  have "map (\<lambda>r. read (fst (example_world_tiny r)) (snd (example_world_tiny r) ! 0)) [0..<2]
      = [[float32_spacing, float32_spacing], [float32_spacing, float32_spacing]]"
    by (simp add: example_world_tiny_def example_heap_tiny_def read_def numeral_2_eq_2)
  moreover have "rank_partition 2 0
       (elementwise_average
          [[float32_spacing, float32_spacing], [float32_spacing, float32_spacing]] 2 2)
      = [float32_spacing]"
    by code_simp
  ultimately have b: "rank_partition 2 0
       (elementwise_average
          (map (\<lambda>r. read (fst (example_world_tiny r)) (snd (example_world_tiny r) ! 0)) [0..<2])
          2 2) = [float32_spacing]"
    by (simp only:)
  have "reduce_scatter_coalesced 0 2 example_world_integral = Inl RuntimeError"
    by (rule reduce_scatter_coalesced_integral) (simp_all add: example_world_integral_def)
  with a b q show ?thesis by blast
qed

text \<open>
  C1, amended. For every non-empty list of valid buffers of one floating-point dtype
  (all ranks passing buffers of the same element counts), the call returns one output
  per input, in order, and output \<open>i\<close> is this rank's partition of the pre-divided sum
  of input \<open>i\<close>: every rank's element is divided by the world size and rounded to the
  dtype, and the quotients are added up in rank order by the one sum-reducing
  collective, every partial sum rounded. Where nothing is rounded (\<open>fl x = x\<close>
  throughout) this is the partition of the elementwise sum divided by the world size.
  For a non-empty list of buffers of an integer dtype the call raises at \<^verbatim>\<open>div_\<close>.
\<close>

theorem output_is_partition_of_predivided_sum:
  assumes r: "this_rank < world_sz" and ne: "snd (world this_rank) \<noteq> []"
  shows "(well_formed_world fl world_sz this_rank world \<longrightarrow>
      (\<exists>outs h'. reduce_scatter_coalesced this_rank world_sz world = Inr (outs, h')
        \<and> length outs = length (snd (world this_rank))
        \<and> (\<forall>i<length (snd (world this_rank)).
              read h' (outs ! i)
                = rank_partition world_sz this_rank
                    (predivided_sum fl
                       (map (\<lambda>r. read (fst (world r)) (snd (world r) ! i)) [0..<world_sz])
                       (numel (snd (world this_rank) ! i)) world_sz)
            \<and> ((\<forall>x. fl x = x) \<longrightarrow>
                read h' (outs ! i)
                  = rank_partition world_sz this_rank
                      (elementwise_average
                         (map (\<lambda>r. read (fst (world r)) (snd (world r) ! i)) [0..<world_sz])
                         (numel (snd (world this_rank) ! i)) world_sz)))))
    \<and> (list_all (\<lambda>t. dtype t = Integral) (snd (world this_rank)) \<longrightarrow>
         reduce_scatter_coalesced this_rank world_sz world = Inl RuntimeError)"
proof (intro conjI impI)
  let ?ts = "snd (world this_rank)"
  assume wf: "well_formed_world fl world_sz this_rank world"
  from reduce_scatter_coalesced_outputs [OF wf r ne] obtain outs h' where
    res: "reduce_scatter_coalesced this_rank world_sz world = Inr (outs, h')"
    and len: "length outs = length ?ts"
    and each: "\<forall>i<length ?ts.
          numel (outs ! i) = partition_length (numel (?ts ! i)) world_sz this_rank
        \<and> read h' (outs ! i)
            = map (\<lambda>j. reduced_element fl world_sz world i
                  (this_rank * ceil_div (numel (?ts ! i)) world_sz + j))
                [0..<partition_length (numel (?ts ! i)) world_sz this_rank]"
    by blast
  have "read h' (outs ! i)
          = rank_partition world_sz this_rank
              (predivided_sum fl
                 (map (\<lambda>r. read (fst (world r)) (snd (world r) ! i)) [0..<world_sz])
                 (numel (?ts ! i)) world_sz)
      \<and> ((\<forall>x. fl x = x) \<longrightarrow>
          read h' (outs ! i)
            = rank_partition world_sz this_rank
                (elementwise_average
                   (map (\<lambda>r. read (fst (world r)) (snd (world r) ! i)) [0..<world_sz])
                   (numel (?ts ! i)) world_sz))"
    if i: "i < length ?ts" for i
  proof -
    let ?n = "numel (?ts ! i)"
    let ?inputs = "map (\<lambda>r. read (fst (world r)) (snd (world r) ! i)) [0..<world_sz]"
    have len: "length (read (fst (world r')) (snd (world r') ! i)) = ?n"
      if "r' < world_sz" for r'
      using wf that i by (rule input_length)
    from each i have "read h' (outs ! i)
            = map (\<lambda>j. reduced_element fl world_sz world i
                  (this_rank * ceil_div ?n world_sz + j))
                [0..<partition_length ?n world_sz this_rank]"
      by simp
    also have "\<dots> = rank_partition world_sz this_rank (predivided_sum fl ?inputs ?n world_sz)"
      using len by (rule partition_of_predivided_sum)
    finally have a: "read h' (outs ! i)
        = rank_partition world_sz this_rank (predivided_sum fl ?inputs ?n world_sz)" .
    have "predivided_sum fl ?inputs ?n world_sz = elementwise_average ?inputs ?n world_sz"
      if "\<forall>x. fl x = x"
      using that by (rule predivided_sum_exact) (auto simp: len)
    with a show ?thesis by simp
  qed
  with res len
  show "\<exists>outs h'. reduce_scatter_coalesced this_rank world_sz world = Inr (outs, h')
        \<and> length outs = length ?ts
        \<and> (\<forall>i<length ?ts.
              read h' (outs ! i)
                = rank_partition world_sz this_rank
                    (predivided_sum fl
                       (map (\<lambda>r. read (fst (world r)) (snd (world r) ! i)) [0..<world_sz])
                       (numel (?ts ! i)) world_sz)
            \<and> ((\<forall>x. fl x = x) \<longrightarrow>
                read h' (outs ! i)
                  = rank_partition world_sz this_rank
                      (elementwise_average
                         (map (\<lambda>r. read (fst (world r)) (snd (world r) ! i)) [0..<world_sz])
                         (numel (?ts ! i)) world_sz)))"
    by blast
next
  assume "list_all (\<lambda>t. dtype t = Integral) (snd (world this_rank))"
  with r ne show "reduce_scatter_coalesced this_rank world_sz world = Inl RuntimeError"
    by (rule reduce_scatter_coalesced_integral)
qed

lemma example_world_pair_inputs:
  "map (\<lambda>r. read (fst (example_world_pair fl r)) (snd (example_world_pair fl r) ! 0)) [0..<2]
     = [[0, 2, 3], [1, 2, 11]]"
  "map (\<lambda>r. read (fst (example_world_pair fl r)) (snd (example_world_pair fl r) ! 1)) [0..<2]
     = [[10, 20], [10, 40]]"
  by (simp_all add: example_world_pair_def example_heap_pair_def read_def numeral_2_eq_2)

lemma example_rounded_partition:
  "rank_partition 2 1 (predivided_sum (round_to_spacing 1) [[0, 2, 3], [1, 2, 11]] 3 2) = [8]"
  "rank_partition 2 1 (predivided_sum (round_to_spacing 1) [[10, 20], [10, 40]] 2 2) = [30]"
  by code_simp+

lemma example_exact_partition:
  "rank_partition 2 1 (elementwise_average [[0, 2, 3], [1, 2, 11]] 3 2) = [7]"
  "rank_partition 2 1 (elementwise_average [[10, 20], [10, 40]] 2 2) = [30]"
  by code_simp+

theorem output_is_partition_of_predivided_sum_witness:
  "(1::nat) < 2 \<and> snd (example_world_pair (round_to_spacing 1) 1) \<noteq> []
     \<and> well_formed_world (round_to_spacing 1) 2 1 (example_world_pair (round_to_spacing 1))
     \<and> (\<exists>outs h'. reduce_scatter_coalesced 1 2 (example_world_pair (round_to_spacing 1))
                     = Inr (outs, h')
           \<and> length outs = 2 \<and> read h' (outs ! 0) = [8] \<and> read h' (outs ! 1) = [30])
     \<and> well_formed_world no_rounding 2 1 (example_world_pair no_rounding)
     \<and> (\<forall>x. no_rounding x = x)
     \<and> (\<exists>outs h'. reduce_scatter_coalesced 1 2 (example_world_pair no_rounding) = Inr (outs, h')
           \<and> length outs = 2 \<and> read h' (outs ! 0) = [7] \<and> read h' (outs ! 1) = [30])
     \<and> list_all (\<lambda>t. dtype t = Integral) (snd (example_world_integral 1))
     \<and> reduce_scatter_coalesced 1 2 example_world_integral = Inl RuntimeError"
proof -
  have lt: "(1::nat) < 2" by simp
  have ne: "snd (example_world_pair fl 1) \<noteq> []"
    and l: "length (snd (example_world_pair fl 1)) = 2"
    and i0: "0 < length (snd (example_world_pair fl 1))"
    and i1: "1 < length (snd (example_world_pair fl 1))"
    and n: "numel (snd (example_world_pair fl 1) ! 0) = 3"
      "numel (snd (example_world_pair fl 1) ! 1) = 2" for fl
    by (simp_all add: example_world_pair_def)
  have x: "\<forall>x. no_rounding x = x"
    by (simp add: no_rounding_def)
  have nei: "snd (example_world_integral 1) \<noteq> []"
    and int: "list_all (\<lambda>t. dtype t = Integral) (snd (example_world_integral 1))"
    by (simp_all add: example_world_integral_def)
  from output_is_partition_of_predivided_sum
    [of 1 2 "example_world_pair (round_to_spacing 1)" "round_to_spacing 1", OF lt ne,
     THEN conjunct1, THEN mp, OF example_world_pair_well_formed]
  obtain outs h' where
    "reduce_scatter_coalesced 1 2 (example_world_pair (round_to_spacing 1)) = Inr (outs, h')"
    and lo: "length outs = length (snd (example_world_pair (round_to_spacing 1) 1))"
    and each: "\<forall>i<length (snd (example_world_pair (round_to_spacing 1) 1)).
          read h' (outs ! i)
            = rank_partition 2 1
                (predivided_sum (round_to_spacing 1)
                   (map (\<lambda>r. read (fst (example_world_pair (round_to_spacing 1) r))
                               (snd (example_world_pair (round_to_spacing 1) r) ! i)) [0..<2])
                   (numel (snd (example_world_pair (round_to_spacing 1) 1) ! i)) 2)
          \<and> ((\<forall>x. round_to_spacing 1 x = x) \<longrightarrow>
             read h' (outs ! i)
               = rank_partition 2 1
                   (elementwise_average
                      (map (\<lambda>r. read (fst (example_world_pair (round_to_spacing 1) r))
                                  (snd (example_world_pair (round_to_spacing 1) r) ! i)) [0..<2])
                      (numel (snd (example_world_pair (round_to_spacing 1) 1) ! i)) 2))"
    by blast
  moreover from lo have "length outs = 2"
    by (simp only: l)
  moreover from each [rule_format, OF i0, THEN conjunct1] have "read h' (outs ! 0) = [8]"
    by (simp only: n example_world_pair_inputs example_rounded_partition)
  moreover from each [rule_format, OF i1, THEN conjunct1] have "read h' (outs ! 1) = [30]"
    by (simp only: n example_world_pair_inputs example_rounded_partition)
  ultimately have a: "\<exists>outs h'.
      reduce_scatter_coalesced 1 2 (example_world_pair (round_to_spacing 1)) = Inr (outs, h')
           \<and> length outs = 2 \<and> read h' (outs ! 0) = [8] \<and> read h' (outs ! 1) = [30]"
    by blast
  from output_is_partition_of_predivided_sum
    [of 1 2 "example_world_pair no_rounding" no_rounding, OF lt ne,
     THEN conjunct1, THEN mp, OF example_world_pair_well_formed]
  obtain outs h' where
    "reduce_scatter_coalesced 1 2 (example_world_pair no_rounding) = Inr (outs, h')"
    and lo: "length outs = length (snd (example_world_pair no_rounding 1))"
    and each: "\<forall>i<length (snd (example_world_pair no_rounding 1)).
          read h' (outs ! i)
            = rank_partition 2 1
                (predivided_sum no_rounding
                   (map (\<lambda>r. read (fst (example_world_pair no_rounding r))
                               (snd (example_world_pair no_rounding r) ! i)) [0..<2])
                   (numel (snd (example_world_pair no_rounding 1) ! i)) 2)
          \<and> ((\<forall>x. no_rounding x = x) \<longrightarrow>
             read h' (outs ! i)
               = rank_partition 2 1
                   (elementwise_average
                      (map (\<lambda>r. read (fst (example_world_pair no_rounding r))
                                  (snd (example_world_pair no_rounding r) ! i)) [0..<2])
                      (numel (snd (example_world_pair no_rounding 1) ! i)) 2))"
    by blast
  moreover from lo have "length outs = 2"
    by (simp only: l)
  moreover from each [rule_format, OF i0, THEN conjunct2, THEN mp, OF x]
  have "read h' (outs ! 0) = [7]"
    by (simp only: n example_world_pair_inputs example_exact_partition)
  moreover from each [rule_format, OF i1, THEN conjunct2, THEN mp, OF x]
  have "read h' (outs ! 1) = [30]"
    by (simp only: n example_world_pair_inputs example_exact_partition)
  ultimately have b: "\<exists>outs h'.
      reduce_scatter_coalesced 1 2 (example_world_pair no_rounding) = Inr (outs, h')
           \<and> length outs = 2 \<and> read h' (outs ! 0) = [7] \<and> read h' (outs ! 1) = [30]"
    by blast
  from output_is_partition_of_predivided_sum
    [of 1 2 example_world_integral, OF lt nei, THEN conjunct2, THEN mp, OF int]
  have "reduce_scatter_coalesced 1 2 example_world_integral = Inl RuntimeError" .
  with a b lt ne example_world_pair_well_formed x int show ?thesis
    by blast
qed

section \<open>The fast path works in place\<close>

lemma partition_length_even:
  assumes "rank < world_sz" and "n mod world_sz = 0"
  shows "partition_length n world_sz rank = n div world_sz"
proof -
  from assms have c: "ceil_div n world_sz = n div world_sz"
    by (intro ceil_div_dvd) simp_all
  from assms(2) have n: "n = world_sz * (n div world_sz)" by auto
  from assms(1) have "Suc rank \<le> world_sz" by simp
  then have "Suc rank * (n div world_sz) \<le> world_sz * (n div world_sz)"
    by (rule mult_le_mono1)
  with n have "rank * (n div world_sz) + n div world_sz \<le> n" by simp
  then show ?thesis
    unfolding partition_length_def c by simp
qed

lemma nth_segment:
  assumes "length xs = n" and "a + c \<le> n" and "length ys = c" and "k < n"
  shows "(take a xs @ ys @ drop (a + c) xs) ! k
           = (if a \<le> k \<and> k < a + c then ys ! (k - a) else xs ! k)"
proof (cases "k < a")
  case True
  with assms show ?thesis by (simp add: nth_append)
next
  case False
  from assms(1,2) have la: "min (length xs) a = a" by simp
  show ?thesis
  proof (cases "k < a + c")
    case True
    with False have "k - a < c" by simp
    with True False assms show ?thesis
      by (simp add: nth_append la)
  next
    case ge: False
    then have "\<not> k < a" "\<not> k - a < c" by simp_all
    then have "(take a xs @ ys @ drop (a + c) xs) ! k = drop (a + c) xs ! (k - a - c)"
      by (simp add: nth_append la assms(3))
    also have "\<dots> = xs ! k"
      using ge assms(1,2,4) by simp
    finally show ?thesis using ge by simp
  qed
qed

lemma fast_path_contents:
  assumes wf: "well_formed_world fl world_sz this_rank world" and r: "this_rank < world_sz"
    and single: "world this_rank = (h, [t])" and even: "numel t mod world_sz = 0"
  shows "\<exists>out h'. reduce_scatter_coalesced this_rank world_sz world = Inr ([out], h')
    \<and> buf out = buf t \<and> off out = off t + this_rank * (numel t div world_sz)
    \<and> numel out = numel t div world_sz
    \<and> read h' out
        = map (\<lambda>j. reduced_element fl world_sz world 0 (this_rank * (numel t div world_sz) + j))
            [0..<numel t div world_sz]
    \<and> read h' t
        = map (\<lambda>k. if this_rank * (numel t div world_sz) \<le> k
                      \<and> k < this_rank * (numel t div world_sz) + numel t div world_sz
                    then reduced_element fl world_sz world 0 k
                    else fl (read h t ! k / real world_sz))
            [0..<numel t]"
proof -
  let ?c = "numel t div world_sz"
  let ?flat = "view_flat t"
  let ?d = "map (\<lambda>x. fl (x / real world_sz)) (read h t)"
  let ?h1 = "overwrite h ?flat ?d"
  let ?red = "map (\<lambda>j. reduced_element fl world_sz world 0 (this_rank * ?c + j)) [0..<?c]"
  from r have w: "0 < world_sz" by simp
  from single have ts: "snd (world this_rank) = [t]" and hh: "fst (world this_rank) = h"
    by simp_all
  have ne: "snd (world this_rank) \<noteq> []" by (simp add: ts)
  from well_formed_world_rank(1) [OF wf r] have vt: "valid h t"
    by (simp add: ts hh)
  from well_formed_world_rank(2) [OF wf r] have dt: "dtype t = Floating fl"
    by (simp add: ts)
  have cd: "ceil_div (numel t) world_sz = ?c"
    using w even by (rule ceil_div_dvd)
  have S: "shard_size world_sz [t] = ?c"
    by (simp add: shard_size_def offset_of_def cd)
  have O: "offset_of world_sz [t] 0 = 0"
    by (simp add: offset_of_def)
  have p: "partition_length (numel t) world_sz this_rank = ?c"
    using r even by (rule partition_length_even)
  from dt have "dtype ?flat = Floating fl"
    by (simp add: view_flat_def)
  then have "div_inplace ?flat (real world_sz) h = Inr ?h1"
    by (simp only: div_inplace_floating read_view_flat)
  then have fb: "flat_buffer world_sz [t] h = Inr (?flat, ?h1)"
    using w even by (simp add: flat_buffer_def)
  from reduce_scatter_coalesced_structure [OF wf r ne] obtain flat h1 reduced where
    fb': "flat_buffer world_sz [t] h = Inr (flat, h1)"
    and lr: "length reduced = ?c"
    and el: "\<forall>j<?c. reduced ! j = reduced_element fl world_sz world 0 (this_rank * ?c + j)"
    and res: "reduce_scatter_coalesced this_rank world_sz world
        = Inr ([flat\<lparr>off := off flat + this_rank * ?c, numel := ?c\<rparr>],
               overwrite h1 (flat\<lparr>off := off flat + this_rank * ?c, numel := ?c\<rparr>) reduced)"
    by (auto simp: ts hh S p O cd)
  from fb fb' have flat: "flat = ?flat" and h1: "h1 = ?h1" by simp_all
  from lr el have red: "reduced = ?red"
    by (intro nth_equalityI) simp_all
  let ?out = "?flat\<lparr>off := off ?flat + this_rank * ?c, numel := ?c\<rparr>"
  let ?h' = "overwrite ?h1 ?out reduced"
  have lt: "length (read h t) = numel t"
    using vt by (rule length_read)
  have ld: "length ?d = numel ?flat"
    by (simp add: lt)
  have v1: "valid ?h1 ?flat"
    using vt ld by (intro valid_overwrite) simp_all
  have r1: "read ?h1 ?flat = ?d"
    using vt ld by (subst read_overwrite_same) simp_all
  from even have n: "numel t = world_sz * ?c" by auto
  from r have "Suc this_rank \<le> world_sz" by simp
  then have "Suc this_rank * ?c \<le> world_sz * ?c" by (rule mult_le_mono1)
  with n have fits: "this_rank * ?c + ?c \<le> numel ?flat" by simp
  have whole: "read ?h' ?flat
      = take (this_rank * ?c) (read ?h1 ?flat) @ reduced
          @ drop (this_rank * ?c + ?c) (read ?h1 ?flat)"
    using v1 fits lr by (rule read_overwrite_super)
  from v1 fits have vo: "valid ?h1 ?out"
    by (simp add: valid_def)
  have part: "read ?h' ?out = reduced"
    using vo lr by (intro read_overwrite_same) simp_all
  have content: "read ?h' t
      = take (this_rank * ?c) ?d @ reduced @ drop (this_rank * ?c + ?c) ?d"
    using whole unfolding r1 by simp
  have pointwise: "read ?h' t
      = map (\<lambda>k. if this_rank * ?c \<le> k \<and> k < this_rank * ?c + ?c
                  then reduced_element fl world_sz world 0 k
                  else fl (read h t ! k / real world_sz))
          [0..<numel t]"
  proof (rule nth_equalityI)
    show "length (read ?h' t)
        = length (map (\<lambda>k. if this_rank * ?c \<le> k \<and> k < this_rank * ?c + ?c
                  then reduced_element fl world_sz world 0 k
                  else fl (read h t ! k / real world_sz)) [0..<numel t])"
      unfolding content using fits lr lt by simp
  next
    fix k assume "k < length (read ?h' t)"
    then have k: "k < numel t"
      unfolding content using fits lr lt by simp
    have ld': "length ?d = numel t" by (simp add: lt)
    have "read ?h' t ! k
        = (if this_rank * ?c \<le> k \<and> k < this_rank * ?c + ?c
           then reduced ! (k - this_rank * ?c) else ?d ! k)"
      unfolding content using ld' fits [unfolded numel_view_flat] lr k by (rule nth_segment)
    also have "\<dots> = (if this_rank * ?c \<le> k \<and> k < this_rank * ?c + ?c
           then reduced_element fl world_sz world 0 k
           else fl (read h t ! k / real world_sz))"
    proof (cases "this_rank * ?c \<le> k \<and> k < this_rank * ?c + ?c")
      case True
      then have "k - this_rank * ?c < ?c" and "this_rank * ?c + (k - this_rank * ?c) = k"
        by linarith+
      then have "reduced ! (k - this_rank * ?c) = reduced_element fl world_sz world 0 k"
        unfolding red by simp
      with True show ?thesis by simp
    next
      case False
      with k lt show ?thesis by auto
    qed
    finally show "read ?h' t ! k
        = map (\<lambda>k. if this_rank * ?c \<le> k \<and> k < this_rank * ?c + ?c
                  then reduced_element fl world_sz world 0 k
                  else fl (read h t ! k / real world_sz)) [0..<numel t] ! k"
      using k by simp
  qed
  have "read ?h' ?out = ?red"
    using part red by simp
  moreover note pointwise
  moreover have "buf ?out = buf t" "off ?out = off t + this_rank * ?c" "numel ?out = ?c"
    by (simp_all add: view_flat_def)
  moreover have "reduce_scatter_coalesced this_rank world_sz world = Inr ([?out], ?h')"
    using res by (simp only: flat h1)
  ultimately show ?thesis by blast
qed


text \<open>
  C10, as stated. The claim ends with the input buffer not retaining its original
  contents after the call. With a single participant the division is by 1 and the
  reduce-scattered result of the one chunk is the buffer itself: a buffer holding
  \<open>[1, 2, 3]\<close> holds \<open>[1, 2, 3]\<close> after the call.
\<close>

theorem fast_path_keeps_contents_counterexample:
  "\<exists>out h'. reduce_scatter_coalesced 0 1 example_world_single = Inr ([out], h')
     \<and> read (fst (example_world_single 0))
          \<lparr>buf = 0, off = 0, numel = 3, dim = 1, dtype = Floating no_rounding\<rparr> = [1, 2, 3]
     \<and> read h' \<lparr>buf = 0, off = 0, numel = 3, dim = 1, dtype = Floating no_rounding\<rparr>
          = [1, 2, 3]"
proof -
  let ?t = "\<lparr>buf = 0, off = 0, numel = 3, dim = 1, dtype = Floating no_rounding\<rparr>"
  have s: "example_world_single 0 = (example_heap 1, [?t])"
    by (simp add: example_world_single_def)
  have rd: "read (example_heap 1) ?t = [1, 2, 3]"
    by (simp add: example_heap_def read_def)
  have e: "reduced_element no_rounding (Suc 0) example_world_single 0 k = [1, 2, 3] ! k" for k
    by (simp add: reduced_element_def example_world_single_def example_heap_def read_def
        dtype_sum_def no_rounding_def)
  from fast_path_contents [OF example_world_single_well_formed _ s]
  obtain out h' where "reduce_scatter_coalesced 0 1 example_world_single = Inr ([out], h')"
    and "read h' ?t
        = map (\<lambda>k. if 0 * (numel ?t div 1) \<le> k \<and> k < 0 * (numel ?t div 1) + numel ?t div 1
                    then reduced_element no_rounding 1 example_world_single 0 k
                    else no_rounding (read (example_heap 1) ?t ! k / real 1))
            [0..<numel ?t]"
    by auto
  moreover have "map (\<lambda>k. if 0 * (numel ?t div 1) \<le> k \<and> k < 0 * (numel ?t div 1) + numel ?t div 1
                    then reduced_element no_rounding 1 example_world_single 0 k
                    else no_rounding (read (example_heap 1) ?t ! k / real 1))
            [0..<numel ?t] = [1, 2, 3]"
    by (simp add: e example_heap_def read_def no_rounding_def upt_rec [of _ 3]
        numeral_3_eq_3)
  ultimately have "reduce_scatter_coalesced 0 1 example_world_single = Inr ([out], h')"
    and "read h' ?t = [1, 2, 3]"
    by simp_all
  moreover have "read (fst (example_world_single 0)) ?t = [1, 2, 3]"
    by (simp add: example_world_single_def example_heap_def read_def)
  ultimately show ?thesis
    by blast
qed

text \<open>
  C10, amended. When \<open>reduce_scatter_coalesced\<close> is called with exactly one tensor of a
  floating-point dtype whose element count is a multiple of the world size, the output
  is a view into the caller's tensor (same buffer, at this rank's chunk) that holds this
  rank's partition of the pre-divided sum, and after the call the caller's tensor holds,
  in this rank's chunk, that reduce-scattered result and, everywhere else, its old
  value divided by the world size (rounded to the dtype). The tensor retains its
  original contents exactly when every element is equal to the value so described,
  as with a single participant.
\<close>

theorem fast_path_overwrites_input:
  assumes wf: "well_formed_world fl world_sz this_rank world" and r: "this_rank < world_sz"
    and single: "world this_rank = (h, [t])" and even: "numel t mod world_sz = 0"
  shows "\<exists>out h'. reduce_scatter_coalesced this_rank world_sz world = Inr ([out], h')
    \<and> buf out = buf t \<and> off out = off t + this_rank * (numel t div world_sz)
    \<and> numel out = numel t div world_sz
    \<and> read h' out
        = rank_partition world_sz this_rank
            (predivided_sum fl
               (map (\<lambda>r. read (fst (world r)) (snd (world r) ! 0)) [0..<world_sz])
               (numel t) world_sz)
    \<and> read h' t
        = map (\<lambda>k. if this_rank * (numel t div world_sz) \<le> k
                      \<and> k < this_rank * (numel t div world_sz) + numel t div world_sz
                    then predivided_sum fl
                           (map (\<lambda>r. read (fst (world r)) (snd (world r) ! 0)) [0..<world_sz])
                           (numel t) world_sz ! k
                    else fl (read h t ! k / real world_sz))
            [0..<numel t]
    \<and> (read h' t = read h t \<longleftrightarrow>
         (\<forall>k<numel t.
            read h t ! k
              = (if this_rank * (numel t div world_sz) \<le> k
                    \<and> k < this_rank * (numel t div world_sz) + numel t div world_sz
                 then predivided_sum fl
                        (map (\<lambda>r. read (fst (world r)) (snd (world r) ! 0)) [0..<world_sz])
                        (numel t) world_sz ! k
                 else fl (read h t ! k / real world_sz))))"
proof -
  let ?c = "numel t div world_sz"
  let ?inputs = "map (\<lambda>r. read (fst (world r)) (snd (world r) ! 0)) [0..<world_sz]"
  let ?s = "predivided_sum fl ?inputs (numel t) world_sz"
  let ?f = "\<lambda>k. if this_rank * ?c \<le> k \<and> k < this_rank * ?c + ?c then ?s ! k
                 else fl (read h t ! k / real world_sz)"
  from r have w: "0 < world_sz" by simp
  from single have ts: "snd (world this_rank) = [t]" and hh: "fst (world this_rank) = h"
    by simp_all
  from well_formed_world_rank(1) [OF wf r] have vt: "valid h t"
    by (simp add: ts hh)
  then have lt: "length (read h t) = numel t" by (rule length_read)
  have len: "length (read (fst (world r')) (snd (world r') ! 0)) = numel t"
    if "r' < world_sz" for r'
    using input_length [OF wf that, of 0] by (simp add: ts)
  have nth: "?s ! k = reduced_element fl world_sz world 0 k" if "k < numel t" for k
    using len that by (rule predivided_sum_nth)
  have cd: "ceil_div (numel t) world_sz = ?c"
    using w even by (rule ceil_div_dvd)
  have p: "partition_length (numel t) world_sz this_rank = ?c"
    using r even by (rule partition_length_even)
  from fast_path_contents [OF assms] obtain out h' where
    res: "reduce_scatter_coalesced this_rank world_sz world = Inr ([out], h')"
    and view: "buf out = buf t" "off out = off t + this_rank * ?c" "numel out = ?c"
    and chunk: "read h' out
        = map (\<lambda>j. reduced_element fl world_sz world 0 (this_rank * ?c + j)) [0..<?c]"
    and whole: "read h' t
        = map (\<lambda>k. if this_rank * ?c \<le> k \<and> k < this_rank * ?c + ?c
                    then reduced_element fl world_sz world 0 k
                    else fl (read h t ! k / real world_sz))
            [0..<numel t]"
    by blast
  have "map (\<lambda>j. reduced_element fl world_sz world 0
                   (this_rank * ceil_div (numel t) world_sz + j))
          [0..<partition_length (numel t) world_sz this_rank]
      = rank_partition world_sz this_rank ?s"
    using len by (rule partition_of_predivided_sum)
  with chunk have chunk': "read h' out = rank_partition world_sz this_rank ?s"
    by (simp only: cd p)
  have whole': "read h' t = map ?f [0..<numel t]"
    unfolding whole by (rule map_cong) (simp_all add: nth)
  have "read h' t = read h t \<longleftrightarrow> (\<forall>k<numel t. read h t ! k = ?f k)"
  proof
    assume "read h' t = read h t"
    with whole' have e: "read h t = map ?f [0..<numel t]" by simp
    show "\<forall>k<numel t. read h t ! k = ?f k"
    proof (intro allI impI)
      fix k assume k: "k < numel t"
      then have "map ?f [0..<numel t] ! k = ?f k" by simp
      with e show "read h t ! k = ?f k" by simp
    qed
  next
    assume a: "\<forall>k<numel t. read h t ! k = ?f k"
    have "read h t = map ?f [0..<numel t]"
    proof (rule nth_equalityI)
      show "length (read h t) = length (map ?f [0..<numel t])"
        by (simp add: lt)
    next
      fix k assume "k < length (read h t)"
      then have k: "k < numel t" by (simp add: lt)
      with a have "read h t ! k = ?f k" by blast
      moreover from k have "map ?f [0..<numel t] ! k = ?f k" by simp
      ultimately show "read h t ! k = map ?f [0..<numel t] ! k" by (simp only:)
    qed
    with whole' show "read h' t = read h t" by simp
  qed
  with res view chunk' whole' show ?thesis by blast
qed

lemma example_world_even_inputs:
  "map (\<lambda>r. read (fst (example_world_even r)) (snd (example_world_even r) ! 0)) [0..<2]
     = [[1, 4, 6, 8], [2, 4, 12, 8]]"
  by (simp add: example_world_even_def example_heap_even_def read_def numeral_2_eq_2)

lemma example_even_contents:
  "rank_partition 2 1 (predivided_sum no_rounding [[1, 4, 6, 8], [2, 4, 12, 8]] 4 2) = [9, 8]"
  "map (\<lambda>k. if 1 * (4 div 2) \<le> k \<and> k < 1 * (4 div 2) + 4 div 2
             then predivided_sum no_rounding [[1, 4, 6, 8], [2, 4, 12, 8]] 4 2 ! k
             else no_rounding ([2, 4, 12, 8] ! k / real 2))
     [0..<4] = [1, 2, 9, 8]"
  by code_simp+

theorem fast_path_overwrites_input_witness:
  "well_formed_world no_rounding 2 1 example_world_even \<and> (1::nat) < 2
     \<and> example_world_even 1
         = (example_heap_even 2,
            [\<lparr>buf = 0, off = 0, numel = 4, dim = 2, dtype = Floating no_rounding\<rparr>])
     \<and> (4::nat) mod 2 = 0
     \<and> read (example_heap_even 2)
         \<lparr>buf = 0, off = 0, numel = 4, dim = 2, dtype = Floating no_rounding\<rparr> = [2, 4, 12, 8]
     \<and> (\<exists>out h'. reduce_scatter_coalesced 1 2 example_world_even = Inr ([out], h')
           \<and> buf out = 0 \<and> off out = 2 \<and> numel out = 2
           \<and> read h' out = [9, 8]
           \<and> read h' \<lparr>buf = 0, off = 0, numel = 4, dim = 2, dtype = Floating no_rounding\<rparr>
               = [1, 2, 9, 8])"
proof -
  let ?t = "\<lparr>buf = 0, off = 0, numel = 4, dim = 2, dtype = Floating no_rounding\<rparr>"
  have lt: "(1::nat) < 2" by simp
  have s: "example_world_even 1 = (example_heap_even 2, [?t])"
    by (simp add: example_world_even_def)
  have nt: "numel ?t = 4" and bt: "buf ?t = 0" and ot: "off ?t = 0"
    by simp_all
  have ev: "numel ?t mod 2 = 0" by simp
  have rd: "read (example_heap_even 2) ?t = [2, 4, 12, 8]"
    by (simp add: example_heap_even_def read_def)
  from fast_path_overwrites_input [OF example_world_even_well_formed lt s ev]
  obtain out h' where "reduce_scatter_coalesced 1 2 example_world_even = Inr ([out], h')"
    and v: "buf out = buf ?t" "off out = off ?t + 1 * (numel ?t div 2)"
      "numel out = numel ?t div 2"
    and c: "read h' out
        = rank_partition 2 1
            (predivided_sum no_rounding
               (map (\<lambda>r. read (fst (example_world_even r)) (snd (example_world_even r) ! 0))
                  [0..<2])
               (numel ?t) 2)"
    and w: "read h' ?t
        = map (\<lambda>k. if 1 * (numel ?t div 2) \<le> k \<and> k < 1 * (numel ?t div 2) + numel ?t div 2
                    then predivided_sum no_rounding
                           (map (\<lambda>r. read (fst (example_world_even r))
                                       (snd (example_world_even r) ! 0)) [0..<2])
                           (numel ?t) 2 ! k
                    else no_rounding (read (example_heap_even 2) ?t ! k / real 2))
            [0..<numel ?t]"
    by blast
  moreover from v have "buf out = 0" "off out = 2" "numel out = 2"
    by simp_all
  moreover from c have "read h' out = [9, 8]"
    by (simp only: nt example_world_even_inputs example_even_contents)
  moreover from w have "read h' ?t = [1, 2, 9, 8]"
    by (simp only: nt rd example_world_even_inputs example_even_contents)
  ultimately have "\<exists>out h'. reduce_scatter_coalesced 1 2 example_world_even = Inr ([out], h')
           \<and> buf out = 0 \<and> off out = 2 \<and> numel out = 2
           \<and> read h' out = [9, 8] \<and> read h' ?t = [1, 2, 9, 8]"
    by blast
  with example_world_even_well_formed lt s rd show ?thesis
    by simp
qed

section \<open>The quantized path at concrete inputs\<close>

lemma align_tensor_ok:
  "0 < global_world_size \<Longrightarrow>
     \<exists>flat_tensor h1. align_tensor global_world_size t h = Inr (flat_tensor, h1)
       \<and> numel flat_tensor = numel t + padding_size (numel t) global_world_size"
  by (simp add: align_tensor_def Let_def narrow_def torch_empty_def)

lemma finalize_beyond:
  "tensor_numel \<le> aligned_size div global_world_size * this_rank \<Longrightarrow>
     finalize global_world_size num_nodes this_rank tensor_numel aligned_size fl final_output h
       = Inr (None, h)"
  by (simp add: finalize_def Let_def)

lemma finalize_truncated:
  assumes "aligned_size div global_world_size * this_rank < tensor_numel"
    and "tensor_numel < aligned_size div global_world_size * this_rank
           + aligned_size div global_world_size"
    and "mean_of_chunks fl final_output num_nodes = Inr mean"
    and "tensor_numel - aligned_size div global_world_size * this_rank \<le> length mean"
  shows "finalize global_world_size num_nodes this_rank tensor_numel aligned_size fl
           final_output h
       = (if this_rank = global_world_size - 1
          then Inr (Some ((fst (alloc (Floating fl) mean h))
                 \<lparr>numel := tensor_numel - aligned_size div global_world_size * this_rank\<rparr>),
               snd (alloc (Floating fl) mean h))
          else Inl AssertionError)"
  using assms by (simp add: finalize_def Let_def narrow_def)


lemma example_solve: "solve_group_size 24 8 17 = Inr 8"
proof -
  have "increment_search 24 8 8 = Inr 8"
    by (subst increment_search.simps) (simp add: max_elems_per_intra_group_def)
  moreover have "doubling_loop 24 8 = Inr 8"
    by (subst doubling_loop.simps) (simp add: doubling_guard_def max_elems_per_intra_group_def)
  ultimately show ?thesis
    by (simp add: solve_group_size_def adaptive_group_size_def check_group_size_def
        max_elems_per_intra_group_def)
qed

lemma example_group_size:
  "intra_group_size intra_group_cache_at_entry 24 8 17
     = Inr (8, intra_group_cache_at_entry(24 \<mapsto> 8))"
  by (simp add: intra_group_size_def intra_group_cache_at_entry_def example_solve)

lemma example_mean: "mean_of_chunks no_rounding (replicate 3 1) 1 = Inr [1, 1, 1]"
  by code_simp

lemma example_reduce_one:
  "\<exists>flat_tensor h1.
     align_tensor 8 example_grad example_grad_heap = Inr (flat_tensor, h1)
   \<and> numel flat_tensor = 24
   \<and> reduce_one 8 8 this_rank example_exchange (example_peers 0) intra_group_cache_at_entry
        example_grad example_grad_heap
      = (case finalize 8 1 this_rank 17 24 no_rounding (replicate 3 1) h1 of
           Inl e \<Rightarrow> Inl e
         | Inr (out, h2) \<Rightarrow> Inr (out, intra_group_cache_at_entry(24 \<mapsto> 8), h2))"
proof -
  from align_tensor_ok [of 8 example_grad example_grad_heap] obtain flat_tensor h1 where
    a: "align_tensor 8 example_grad example_grad_heap = Inr (flat_tensor, h1)"
    and n: "numel flat_tensor = 24"
    by (auto simp: example_grad_def padding_size_def)
  have "reduce_one 8 8 this_rank example_exchange (example_peers 0) intra_group_cache_at_entry
        example_grad example_grad_heap
      = (case finalize 8 1 this_rank 17 24 no_rounding (replicate 3 1) h1 of
           Inl e \<Rightarrow> Inl e
         | Inr (out, h2) \<Rightarrow> Inr (out, intra_group_cache_at_entry(24 \<mapsto> 8), h2))"
    unfolding reduce_one_def a
    by (simp add: n example_group_size example_exchange_def example_grad_def)
  with a n show ?thesis by blast
qed

text \<open>
  C2, at a failing input. Eight ranks on one node, one two-dimensional buffer of 17
  elements: the aligned size is 24 and the partition size 3, so the window of rank 6
  starts at element 18, beyond the buffer. Neither branch of lines 102--110 assigns the
  output slot, and the call returns \<^verbatim>\<open>[None]\<close>.
\<close>

theorem quant_reduce_leaves_slot_unfilled:
  "map_sum id fst
     (all_to_all_quant_reduce 8 8 6 example_exchange example_peers [example_grad]
        example_grad_heap) = Inr [None]"
proof -
  from example_reduce_one [of 6] obtain h1 where
    "reduce_one 8 8 6 example_exchange (example_peers 0) intra_group_cache_at_entry
        example_grad example_grad_heap
      = (case finalize 8 1 6 17 24 no_rounding (replicate 3 1) h1 of
           Inl e \<Rightarrow> Inl e
         | Inr (out, h2) \<Rightarrow> Inr (out, intra_group_cache_at_entry(24 \<mapsto> 8), h2))"
    by blast
  moreover have "finalize 8 1 6 17 24 no_rounding (replicate 3 1) h1 = Inr (None, h1)"
    by (rule finalize_beyond) simp
  ultimately show ?thesis
    by (simp add: all_to_all_quant_reduce_def)
qed

text \<open>
  C9, at a failing input. In the same situation the window of rank 5 is \<open>[15, 18)\<close>:
  it starts inside the buffer of 17 elements and ends beyond it, so rank 5 reaches the
  truncation branch, where the assertion \<^verbatim>\<open>this_rank == global_world_size - 1\<close>
  (line 110) fails, although rank 5 is not the last rank.
\<close>

theorem truncation_assertion_fails:
  "map_sum id fst
     (all_to_all_quant_reduce 8 8 5 example_exchange example_peers [example_grad]
        example_grad_heap) = Inl AssertionError"
proof -
  from example_reduce_one [of 5] obtain h1 where
    "reduce_one 8 8 5 example_exchange (example_peers 0) intra_group_cache_at_entry
        example_grad example_grad_heap
      = (case finalize 8 1 5 17 24 no_rounding (replicate 3 1) h1 of
           Inl e \<Rightarrow> Inl e
         | Inr (out, h2) \<Rightarrow> Inr (out, intra_group_cache_at_entry(24 \<mapsto> 8), h2))"
    by blast
  moreover have "finalize 8 1 5 17 24 no_rounding (replicate 3 1) h1 = Inl AssertionError"
    using finalize_truncated [of 24 8 5 17 no_rounding "replicate 3 1" 1 "[1, 1, 1]" h1]
      example_mean
    by simp
  ultimately show ?thesis
    by (simp add: all_to_all_quant_reduce_def)
qed

text \<open>
  C3, as stated. Two ranks, one buffer \<open>[1, 2, 3]\<close>, and uninitialised memory that
  holds 7: the tensors that the general path concatenates are \<open>[1, 2]\<close>, \<open>[3]\<close> and
  the filler \<open>[7]\<close>; the aligned buffer of the quantized path is \<open>[1, 2, 3, 7]\<close>. The
  filler elements are not zero.
\<close>

theorem filler_not_zero_counterexample:
  "map (read (snd (interleave (map (partition_lst 2) (snd (example_world 0))) [2] 2 1
                    (example_heap 1))))
      (fst (interleave (map (partition_lst 2) (snd (example_world 0))) [2] 2 1
              (example_heap 1)))
     = [[1, 2], [3], [7]]
   \<and> (case align_tensor 2 (hd (snd (example_world 0))) (example_heap 1) of
         Inl e \<Rightarrow> []
       | Inr (flat_tensor, h') \<Rightarrow> read h' flat_tensor) = [1, 2, 3, 7]"
  by code_simp

section \<open>Filler elements\<close>

lemma read_alloc_old: "buf t < length (bufs h) \<Longrightarrow> read (snd (alloc d vs h)) t = read h t"
  by (simp add: alloc_def read_def nth_append)

lemma align_tensor_contents:
  assumes w: "0 < global_world_size" and v: "valid h t"
  shows "\<exists>flat_tensor h'. align_tensor global_world_size t h = Inr (flat_tensor, h')
     \<and> numel flat_tensor = numel t + padding_size (numel t) global_world_size
     \<and> read h' flat_tensor
         = read h t @ map (uninit h (length (bufs h)))
                        [numel t..<numel t + padding_size (numel t) global_world_size]"
proof -
  let ?a = "numel t + padding_size (numel t) global_world_size"
  let ?vs = "map (uninit h (length (bufs h))) [0..<?a]"
  let ?flat = "fst (alloc (dtype t) ?vs h)"
  let ?h1 = "snd (alloc (dtype t) ?vs h)"
  let ?front = "?flat\<lparr>off := off ?flat + 0, numel := numel t\<rparr>"
  let ?h' = "overwrite ?h1 ?front (read h t)"
  from v have bt: "buf t < length (bufs h)" by (simp add: valid_def)
  have al: "align_tensor global_world_size t h = Inr (?flat, ?h')"
    using w bt by (simp add: align_tensor_def Let_def torch_empty_def narrow_def
        copy_inplace_def read_alloc_old)
  have "read ?h' ?flat = take 0 (read ?h1 ?flat) @ read h t @ drop (0 + numel t) (read ?h1 ?flat)"
    using v by (intro read_overwrite_super valid_alloc_new) (simp_all add: length_read)
  then have "read ?h' ?flat = read h t @ map (uninit h (length (bufs h))) [numel t..<?a]"
    by (simp add: drop_map)
  with al show ?thesis by (intro exI [of _ ?flat] exI [of _ ?h']) simp
qed

text \<open>
  C3, amended. The filler elements are uninitialised memory (\<^verbatim>\<open>torch.empty\<close>), whatever
  it holds: in the general path of \<open>reduce_scatter_coalesced\<close> the tensor appended
  after a partition shorter than the padded partition size is a fresh buffer of the
  missing length with the contents of uninitialised memory; in the alignment step of
  \<open>all_to_all_quant_reduce\<close> the aligned buffer holds the real data followed by
  \<open>padding_size\<close> elements of uninitialised memory.
\<close>

theorem filler_is_uninitialised_memory:
  assumes "numel (parts ! i ! rank) < padded ! i" and "0 < global_world_size"
    and "valid h t"
  shows "read (snd (append_partition parts padded rank (lst, h) i))
           (last (fst (append_partition parts padded rank (lst, h) i)))
         = map (uninit h (length (bufs h))) [0..<padded ! i - numel (parts ! i ! rank)]
   \<and> (\<exists>flat_tensor h'. align_tensor global_world_size t h = Inr (flat_tensor, h')
         \<and> numel flat_tensor = numel t + padding_size (numel t) global_world_size
         \<and> read h' flat_tensor
             = read h t @ map (uninit h (length (bufs h)))
                            [numel t..<numel t + padding_size (numel t) global_world_size])"
proof -
  from assms(1) have "read (snd (append_partition parts padded rank (lst, h) i))
           (last (fst (append_partition parts padded rank (lst, h) i)))
         = map (uninit h (length (bufs h))) [0..<padded ! i - numel (parts ! i ! rank)]"
    by (simp add: append_partition_def Let_def torch_empty_def)
  with align_tensor_contents [OF assms(2,3)] show ?thesis by blast
qed

theorem filler_is_uninitialised_memory_witness:
  "numel (map (partition_lst 2) (snd (example_world 0)) ! 0 ! 1) < [2] ! 0 \<and> (0::nat) < 2
   \<and> valid (example_heap 1) (hd (snd (example_world 0)))
   \<and> read (snd (append_partition (map (partition_lst 2) (snd (example_world 0))) [2] 1
                   ([], example_heap 1) 0))
        (last (fst (append_partition (map (partition_lst 2) (snd (example_world 0))) [2] 1
                      ([], example_heap 1) 0)))
       = [7]
   \<and> (\<exists>flat_tensor h'.
         align_tensor 2 (hd (snd (example_world 0))) (example_heap 1) = Inr (flat_tensor, h')
         \<and> numel flat_tensor = 4 \<and> read h' flat_tensor = [1, 2, 3, 7])"
proof -
  let ?t = "hd (snd (example_world 0))"
  let ?parts = "map (partition_lst 2) (snd (example_world 0))"
  have a: "numel (?parts ! 0 ! 1) < [2] ! 0"
    by code_simp
  have v: "valid (example_heap 1) ?t"
    by (simp add: example_world_def example_heap_def valid_def)
  have e1: "map (uninit (example_heap 1) (length (bufs (example_heap 1))))
              [0..<[2] ! 0 - numel (?parts ! 0 ! 1)] = [7]"
    by code_simp
  have e3: "numel ?t + padding_size (numel ?t) 2 = 4"
    by code_simp
  have e2: "read (example_heap 1) ?t
              @ map (uninit (example_heap 1) (length (bufs (example_heap 1))))
                  [numel ?t..<4] = [1, 2, 3, 7]"
    by code_simp
  have "0 < (2::nat)" by simp
  from filler_is_uninitialised_memory [OF a this v, of "[]"]
  have "read (snd (append_partition ?parts [2] 1 ([], example_heap 1) 0))
        (last (fst (append_partition ?parts [2] 1 ([], example_heap 1) 0)))
       = [7]
   \<and> (\<exists>flat_tensor h'.
         align_tensor 2 ?t (example_heap 1) = Inr (flat_tensor, h')
         \<and> numel flat_tensor = 4 \<and> read h' flat_tensor = [1, 2, 3, 7])"
    by (simp only: e1 e3 e2)
  with a v show ?thesis by simp
qed

section \<open>The group-size cache\<close>












end
